theory Spec2Isabelle
  imports Main "HOL-Library.Word"
begin

section \<open>JavaScript strings\<close>

text \<open>
  A JavaScript string is a sequence of 16-bit code units. ASCII literals of the source are
  written \<open>js ''...''\<close>; the double quote and the apostrophe are named, since they
  delimit strings here as well.
\<close>

type_synonym jschar = "16 word"
type_synonym jsstring = "jschar list"

definition js :: "string \<Rightarrow> jsstring" where
  "js s = map (\<lambda>c. of_nat (of_char c)) s"

definition DQUOTE :: jschar where "DQUOTE = 0x22"
definition APOS :: jschar where "APOS = 0x27"
definition PERCENT :: jschar where "PERCENT = 0x25"
definition SPACE :: jschar where "SPACE = 0x20"
definition CR :: jschar where "CR = 0x0D"
definition LF :: jschar where "LF = 0x0A"

datatype error = URIError | SyntaxError | TypeError

text \<open>
  \<open>String.prototype.trim\<close> and the regular expression class \<open>\s\<close> use the same set:
  the WhiteSpace and LineTerminator code points of ECMAScript.
\<close>

definition isWhiteSpace :: "jschar \<Rightarrow> bool" where
  "isWhiteSpace c \<longleftrightarrow>
     c = 0x09 \<or> c = 0x0A \<or> c = 0x0B \<or> c = 0x0C \<or> c = 0x0D \<or> c = 0x20 \<or> c = 0xA0 \<or>
     c = 0x1680 \<or> (0x2000 \<le> c \<and> c \<le> 0x200A) \<or> c = 0x2028 \<or> c = 0x2029 \<or>
     c = 0x202F \<or> c = 0x205F \<or> c = 0x3000 \<or> c = 0xFEFF"

definition trim :: "jsstring \<Rightarrow> jsstring" where
  "trim s = rev (dropWhile isWhiteSpace (rev (dropWhile isWhiteSpace s)))"

definition startsWith :: "jsstring \<Rightarrow> jsstring \<Rightarrow> bool" where
  "startsWith s p \<longleftrightarrow> take (length p) s = p"

text \<open>\<open>s.replace(p, r)\<close> with a string pattern: the first occurrence only.\<close>

fun replaceFirst :: "jsstring \<Rightarrow> jsstring \<Rightarrow> jsstring \<Rightarrow> jsstring" where
  "replaceFirst p r [] = (if p = [] then r else [])"
| "replaceFirst p r (c # cs) =
     (if startsWith (c # cs) p then r @ drop (length p) (c # cs)
      else c # replaceFirst p r cs)"

text \<open>\<open>s.replace(/c/g, r)\<close> for a one-character pattern: every occurrence.\<close>

definition replaceAllChar :: "jschar \<Rightarrow> jsstring \<Rightarrow> jsstring \<Rightarrow> jsstring" where
  "replaceAllChar c r s = concat (map (\<lambda>x. if x = c then r else [x]) s)"

text \<open>
  \<open>raw.match(/href="([^"]*)"/)\<close>, group 1. \<open>matchHrefAt\<close> is the pattern anchored at the
  head of its argument: the literal \<open>href="\<close>, the longest run of characters other than the
  double quote, and a closing double quote (a shorter run cannot be followed by one).
  \<open>matchHref\<close> tries every start position from the left.
\<close>

definition matchHrefAt :: "jsstring \<Rightarrow> jsstring option" where
  "matchHrefAt s =
     (if startsWith s (js ''href='' @ [DQUOTE]) then
        (let rest = drop 6 s; g = takeWhile (\<lambda>c. c \<noteq> DQUOTE) rest
         in if length g < length rest then Some g else None)
      else None)"

fun matchHref :: "jsstring \<Rightarrow> jsstring option" where
  "matchHref [] = None"
| "matchHref (c # cs) =
     (case matchHrefAt (c # cs) of Some g \<Rightarrow> Some g | None \<Rightarrow> matchHref cs)"

text \<open>\<open>s.replace(/\r?\n|\r/g, "")\<close>: at a CR the first alternative takes CR LF when it can.\<close>

fun removeLineBreaks :: "jsstring \<Rightarrow> jsstring" where
  "removeLineBreaks [] = []"
| "removeLineBreaks [c] = (if c = CR \<or> c = LF then [] else [c])"
| "removeLineBreaks (c # d # ds) =
     (if c = CR \<and> d = LF then removeLineBreaks ds
      else if c = CR \<or> c = LF then removeLineBreaks (d # ds)
      else c # removeLineBreaks (d # ds))"

text \<open>\<open>s.replace(/\s+/g, " ")\<close>: every maximal run of white space becomes one space.\<close>

function collapseWhitespace :: "jsstring \<Rightarrow> jsstring" where
  "collapseWhitespace [] = []"
| "collapseWhitespace (c # cs) =
     (if isWhiteSpace c then SPACE # collapseWhitespace (dropWhile isWhiteSpace cs)
      else c # collapseWhitespace cs)"
  by pat_completeness auto
termination
  by (relation "measure length") (auto simp: length_dropWhile_le less_Suc_eq_le)

section \<open>Percent encoding\<close>

subsection \<open>UTF-16 and UTF-8\<close>

definition isHighSurrogate :: "jschar \<Rightarrow> bool" where
  "isHighSurrogate c \<longleftrightarrow> 0xD800 \<le> c \<and> c \<le> 0xDBFF"

definition isLowSurrogate :: "jschar \<Rightarrow> bool" where
  "isLowSurrogate c \<longleftrightarrow> 0xDC00 \<le> c \<and> c \<le> 0xDFFF"

definition surrogatePair :: "jschar \<Rightarrow> jschar \<Rightarrow> nat" where
  "surrogatePair hi lo = 0x10000 + (unat hi - 0xD800) * 0x400 + (unat lo - 0xDC00)"

definition utf16Encode :: "nat \<Rightarrow> jsstring" where
  "utf16Encode cp =
     (if cp < 0x10000 then [of_nat cp]
      else [of_nat (0xD800 + (cp - 0x10000) div 0x400),
            of_nat (0xDC00 + (cp - 0x10000) mod 0x400)])"

definition utf8Encode :: "nat \<Rightarrow> nat list" where
  "utf8Encode cp =
     (if cp < 0x80 then [cp]
      else if cp < 0x800 then [0xC0 + cp div 64, 0x80 + cp mod 64]
      else if cp < 0x10000 then
        [0xE0 + cp div 4096, 0x80 + (cp div 64) mod 64, 0x80 + cp mod 64]
      else
        [0xF0 + cp div 262144, 0x80 + (cp div 4096) mod 64,
         0x80 + (cp div 64) mod 64, 0x80 + cp mod 64])"

definition isContinuation :: "nat \<Rightarrow> bool" where
  "isContinuation b \<longleftrightarrow> 0x80 \<le> b \<and> b \<le> 0xBF"

text \<open>
  The code point of a well-formed UTF-8 sequence (the Unicode standard's table of
  well-formed byte sequences: no overlong form, no surrogate, nothing above 10FFFF).
\<close>

fun utf8Decode :: "nat list \<Rightarrow> nat option" where
  "utf8Decode [b0, b1] =
     (if 0xC2 \<le> b0 \<and> b0 \<le> 0xDF \<and> isContinuation b1
      then Some ((b0 - 0xC0) * 64 + (b1 - 0x80)) else None)"
| "utf8Decode [b0, b1, b2] =
     (if 0xE0 \<le> b0 \<and> b0 \<le> 0xEF \<and> isContinuation b1 \<and> isContinuation b2 \<and>
         (b0 = 0xE0 \<longrightarrow> 0xA0 \<le> b1) \<and> (b0 = 0xED \<longrightarrow> b1 \<le> 0x9F)
      then Some ((b0 - 0xE0) * 4096 + (b1 - 0x80) * 64 + (b2 - 0x80)) else None)"
| "utf8Decode [b0, b1, b2, b3] =
     (if 0xF0 \<le> b0 \<and> b0 \<le> 0xF4 \<and> isContinuation b1 \<and> isContinuation b2 \<and>
         isContinuation b3 \<and> (b0 = 0xF0 \<longrightarrow> 0x90 \<le> b1) \<and> (b0 = 0xF4 \<longrightarrow> b1 \<le> 0x8F)
      then Some ((b0 - 0xF0) * 262144 + (b1 - 0x80) * 4096 + (b2 - 0x80) * 64 + (b3 - 0x80))
      else None)"
| "utf8Decode _ = None"

subsection \<open>encodeURIComponent\<close>

text \<open>The characters that \<open>encodeURIComponent\<close> leaves alone: letters, digits and \<open>-_.!~*'()\<close>.\<close>

definition uriUnreserved :: "jschar \<Rightarrow> bool" where
  "uriUnreserved c \<longleftrightarrow>
     (0x41 \<le> c \<and> c \<le> 0x5A) \<or> (0x61 \<le> c \<and> c \<le> 0x7A) \<or> (0x30 \<le> c \<and> c \<le> 0x39) \<or>
     c = 0x2D \<or> c = 0x5F \<or> c = 0x2E \<or> c = 0x21 \<or> c = 0x7E \<or> c = 0x2A \<or> c = 0x27 \<or>
     c = 0x28 \<or> c = 0x29"

definition hexDigit :: "nat \<Rightarrow> jschar" where
  "hexDigit n = (if n < 10 then of_nat (0x30 + n) else of_nat (0x37 + n))"

definition pctOctet :: "nat \<Rightarrow> jsstring" where
  "pctOctet b = [PERCENT, hexDigit (b div 16), hexDigit (b mod 16)]"

definition pctEncode :: "nat \<Rightarrow> jsstring" where
  "pctEncode cp = concat (map pctOctet (utf8Encode cp))"

text \<open>An unpaired surrogate makes \<open>encodeURIComponent\<close> throw URIError.\<close>

fun encodeURIComponent :: "jsstring \<Rightarrow> error + jsstring" where
  "encodeURIComponent [] = Inr []"
| "encodeURIComponent (c # cs) =
     (if uriUnreserved c then
        (case encodeURIComponent cs of Inl e \<Rightarrow> Inl e | Inr r \<Rightarrow> Inr (c # r))
      else if isLowSurrogate c then Inl URIError
      else if isHighSurrogate c then
        (case cs of
           [] \<Rightarrow> Inl URIError
         | d # ds \<Rightarrow>
             if isLowSurrogate d then
               (case encodeURIComponent ds of
                  Inl e \<Rightarrow> Inl e
                | Inr r \<Rightarrow> Inr (pctEncode (surrogatePair c d) @ r))
             else Inl URIError)
      else
        (case encodeURIComponent cs of
           Inl e \<Rightarrow> Inl e
         | Inr r \<Rightarrow> Inr (pctEncode (unat c) @ r)))"

subsection \<open>decodeURIComponent\<close>

definition hexValue :: "jschar \<Rightarrow> nat option" where
  "hexValue c =
     (if 0x30 \<le> c \<and> c \<le> 0x39 then Some (unat c - 0x30)
      else if 0x41 \<le> c \<and> c \<le> 0x46 then Some (unat c - 0x37)
      else if 0x61 \<le> c \<and> c \<le> 0x66 then Some (unat c - 0x57)
      else None)"

definition parseHexOctet :: "jschar \<Rightarrow> jschar \<Rightarrow> nat option" where
  "parseHexOctet h l =
     (case hexValue h of
        None \<Rightarrow> None
      | Some a \<Rightarrow> (case hexValue l of None \<Rightarrow> None | Some b \<Rightarrow> Some (a * 16 + b)))"

text \<open>The number of leading 1 bits of an octet (5 stands for five or more).\<close>

definition leadingOnes :: "nat \<Rightarrow> nat" where
  "leadingOnes b =
     (if b < 0x80 then 0 else if b < 0xC0 then 1 else if b < 0xE0 then 2
      else if b < 0xF0 then 3 else if b < 0xF8 then 4 else 5)"

text \<open>The next \<open>n\<close> escapes \<open>%XX\<close> at the head of the string, as octets.\<close>

fun readEscapes :: "nat \<Rightarrow> jsstring \<Rightarrow> nat list option" where
  "readEscapes 0 s = Some []"
| "readEscapes (Suc n) (p # h # l # s) =
     (if p = PERCENT then
        (case parseHexOctet h l of
           None \<Rightarrow> None
         | Some b \<Rightarrow> map_option ((#) b) (readEscapes n s))
      else None)"
| "readEscapes (Suc n) s = None"

text \<open>
  \<open>decodeURIComponent\<close> throws URIError at a \<open>%\<close> that is not followed by two hexadecimal
  digits, at an octet that cannot start a UTF-8 sequence, and at a sequence that is cut
  short or not well-formed UTF-8.
\<close>

function decodeURIComponent :: "jsstring \<Rightarrow> error + jsstring" where
  "decodeURIComponent [] = Inr []"
| "decodeURIComponent (c # cs) =
     (if c \<noteq> PERCENT then
        (case decodeURIComponent cs of Inl e \<Rightarrow> Inl e | Inr r \<Rightarrow> Inr (c # r))
      else
        (case cs of
           h # l # rest \<Rightarrow>
             (case parseHexOctet h l of
                None \<Rightarrow> Inl URIError
              | Some b \<Rightarrow>
                  if leadingOnes b = 0 then
                    (case decodeURIComponent rest of
                       Inl e \<Rightarrow> Inl e
                     | Inr r \<Rightarrow> Inr (of_nat b # r))
                  else if leadingOnes b = 1 \<or> 4 < leadingOnes b then Inl URIError
                  else
                    (case readEscapes (leadingOnes b - 1) rest of
                       None \<Rightarrow> Inl URIError
                     | Some bs \<Rightarrow>
                         (case utf8Decode (b # bs) of
                            None \<Rightarrow> Inl URIError
                          | Some cp \<Rightarrow>
                              (case decodeURIComponent (drop (3 * (leadingOnes b - 1)) rest) of
                                 Inl e \<Rightarrow> Inl e
                               | Inr r \<Rightarrow> Inr (utf16Encode cp @ r)))))
         | _ \<Rightarrow> Inl URIError))"
  by pat_completeness auto
termination
  by (relation "measure length") auto


section \<open>The encoder: processInput\<close>

text \<open>
  The three DOM elements that \<open>processInput\<close> reads and writes. \<open>svgInput\<close> and
  \<open>outputCode\<close> hold what the \<open>value\<close> of the text area reads as; a text area hands a
  value back with its line breaks normalised to LF, which \<open>setValue\<close> applies at the write.
\<close>

record els =
  svgInput :: jsstring
  outputCode :: jsstring
  previewImg :: jsstring

fun setValue :: "jsstring \<Rightarrow> jsstring" where
  "setValue [] = []"
| "setValue [c] = (if c = CR then [LF] else [c])"
| "setValue (c # d # ds) =
     (if c = CR \<and> d = LF then LF # setValue ds
      else if c = CR then LF # setValue (d # ds)
      else c # setValue (d # ds))"

definition DATA_PREFIX :: jsstring where
  "DATA_PREFIX = js ''data:image/svg+xml,''"

definition linkTag :: "jsstring \<Rightarrow> jsstring" where
  "linkTag uri =
     js ''<link rel='' @ [DQUOTE] @ js ''icon'' @ [DQUOTE] @ js '' type='' @ [DQUOTE] @
     js ''image/svg+xml'' @ [DQUOTE] @ js '' href='' @ [DQUOTE] @ uri @ [DQUOTE] @ js '' />''"

text \<open>
  What one run of \<open>processInput\<close> computes: nothing for an empty input (the outputs are
  cleared), or the minimised source \<open>cleanSvg\<close>, the data URI and the tag.
\<close>

datatype outcome =
  Empty
| Result (canonicalSource: jsstring) (dataUri: jsstring) (tag: jsstring)

text \<open>
  The encode step: \<open>encodeURIComponent\<close>, then every apostrophe as \<open>%27\<close> and every
  double quote as \<open>%22\<close>, behind the fixed prefix.
\<close>

definition quoteEscapes :: "jsstring \<Rightarrow> jsstring" where
  "quoteEscapes enc =
     replaceAllChar DQUOTE (js ''%22'') (replaceAllChar APOS (js ''%27'') enc)"

definition encodeAsDataUri :: "jsstring \<Rightarrow> error + jsstring" where
  "encodeAsDataUri cleanSvg =
     (case encodeURIComponent cleanSvg of
        Inl err \<Rightarrow> Inl err
      | Inr enc \<Rightarrow> Inr (DATA_PREFIX @ quoteEscapes enc))"

text \<open>
  The last part of \<open>processInput\<close> (minimise, encode, write the outputs), on the text
  \<open>raw\<close> that the unwrapping steps have left.
\<close>

definition generate :: "els \<Rightarrow> jsstring \<Rightarrow> els \<times> (error + outcome)" where
  "generate e raw =
     (let cleanSvg = collapseWhitespace (removeLineBreaks raw) in
      case encodeAsDataUri cleanSvg of
        Inl err \<Rightarrow> (e, Inl err)
      | Inr uri \<Rightarrow>
          let t = linkTag uri
          in (e\<lparr>outputCode := setValue t, previewImg := uri\<rparr>, Inr (Result cleanSvg uri t)))"

text \<open>
  The middle part: a text that begins with the data URI prefix is stripped of it and
  percent-decoded, and the text area is set to the decoded text.
\<close>

definition fromDataUri :: "els \<Rightarrow> jsstring \<Rightarrow> els \<times> (error + outcome)" where
  "fromDataUri e raw =
     (if startsWith raw DATA_PREFIX then
        (case decodeURIComponent (replaceFirst DATA_PREFIX [] raw) of
           Inl err \<Rightarrow> (e, Inl err)
         | Inr decoded \<Rightarrow> generate (e\<lparr>svgInput := setValue decoded\<rparr>) decoded)
      else generate e raw)"

text \<open>
  \<open>processInput\<close>: the elements after the run, and either the error thrown or the outcome.
  An error leaves the elements as they were when it was thrown.
\<close>

definition processInput :: "els \<Rightarrow> els \<times> (error + outcome)" where
  "processInput e =
     (let raw = trim (svgInput e) in
      if raw = [] then (e\<lparr>outputCode := [], previewImg := []\<rparr>, Inr Empty)
      else
        let raw = (if startsWith raw (js ''<link'')
                   then (case matchHref raw of Some h \<Rightarrow> h | None \<Rightarrow> raw)
                   else raw)
        in fromDataUri e raw)"

text \<open>The encoder as a function of the input text alone.\<close>

definition blank :: els where
  "blank = \<lparr>svgInput = [], outputCode = [], previewImg = []\<rparr>"

definition normalize_input :: "jsstring \<Rightarrow> error + outcome" where
  "normalize_input s = snd (processInput (blank\<lparr>svgInput := s\<rparr>))"

section \<open>JSON\<close>

text \<open>
  The values that \<open>JSON.parse\<close> can return. A number that is written as an integer is
  kept exactly (JavaScript rounds it beyond 2 to the 53 and prints it with an exponent from
  10 to the 21 on; no clock reading comes near either); a number written with a fraction
  or an exponent is an IEEE double, which is not modelled here: it is carried as its
  spelling, and no theorem depends on its value.
\<close>

datatype json =
  JNull
| JBool bool
| JNumber int
| JNumberLit jsstring
| JString jsstring
| JArray "json list"
| JObject "(jsstring \<times> json) list"

definition BACKSLASH :: jschar where "BACKSLASH = 0x5C"
definition MINUS :: jschar where "MINUS = 0x2D"

subsection \<open>JSON.stringify\<close>

definition digitChar :: "nat \<Rightarrow> jschar" where
  "digitChar n = of_nat (0x30 + n)"

function digits :: "nat \<Rightarrow> jsstring" where
  "digits n = (if n < 10 then [digitChar n] else digits (n div 10) @ [digitChar (n mod 10)])"
  by pat_completeness auto
termination
  by (relation "measure id") auto

declare digits.simps [simp del]

definition intText :: "int \<Rightarrow> jsstring" where
  "intText n = (if n < 0 then MINUS # digits (nat (- n)) else digits (nat n))"

definition hexLower :: "nat \<Rightarrow> jschar" where
  "hexLower n = (if n < 10 then of_nat (0x30 + n) else of_nat (0x57 + n))"

definition unicodeEscape :: "jschar \<Rightarrow> jsstring" where
  "unicodeEscape c =
     [BACKSLASH, 0x75, hexLower (unat c div 4096), hexLower (unat c div 256 mod 16),
      hexLower (unat c div 16 mod 16), hexLower (unat c mod 16)]"

definition escapeUnit :: "jschar \<Rightarrow> jsstring" where
  "escapeUnit c =
     (if c = 0x08 then [BACKSLASH, 0x62]
      else if c = 0x09 then [BACKSLASH, 0x74]
      else if c = 0x0A then [BACKSLASH, 0x6E]
      else if c = 0x0C then [BACKSLASH, 0x66]
      else if c = 0x0D then [BACKSLASH, 0x72]
      else if c = DQUOTE then [BACKSLASH, DQUOTE]
      else if c = BACKSLASH then [BACKSLASH, BACKSLASH]
      else if c < 0x20 \<or> isHighSurrogate c \<or> isLowSurrogate c then unicodeEscape c
      else [c])"

fun escapeJSON :: "jsstring \<Rightarrow> jsstring" where
  "escapeJSON [] = []"
| "escapeJSON [c] = escapeUnit c"
| "escapeJSON (c # d # ds) =
     (if isHighSurrogate c \<and> isLowSurrogate d then c # d # escapeJSON ds
      else escapeUnit c @ escapeJSON (d # ds))"

definition quoteJSONString :: "jsstring \<Rightarrow> jsstring" where
  "quoteJSONString s = [DQUOTE] @ escapeJSON s @ [DQUOTE]"

fun joinWith :: "jsstring \<Rightarrow> jsstring list \<Rightarrow> jsstring" where
  "joinWith sep [] = []"
| "joinWith sep [x] = x"
| "joinWith sep (x # y # ys) = x @ sep @ joinWith sep (y # ys)"

fun JSON_stringify :: "json \<Rightarrow> jsstring"
  and stringifyElements :: "json list \<Rightarrow> jsstring list"
  and stringifyMembers :: "(jsstring \<times> json) list \<Rightarrow> jsstring list" where
  "JSON_stringify JNull = js ''null''"
| "JSON_stringify (JBool b) = (if b then js ''true'' else js ''false'')"
| "JSON_stringify (JNumber n) = intText n"
| "JSON_stringify (JNumberLit t) = t"
| "JSON_stringify (JString s) = quoteJSONString s"
| "JSON_stringify (JArray vs) = js ''['' @ joinWith (js '','') (stringifyElements vs) @ js '']''"
| "JSON_stringify (JObject kvs) = js ''{'' @ joinWith (js '','') (stringifyMembers kvs) @ js ''}''"
| "stringifyElements [] = []"
| "stringifyElements (v # vs) = JSON_stringify v # stringifyElements vs"
| "stringifyMembers [] = []"
| "stringifyMembers ((k, v) # kvs) =
     (quoteJSONString k @ js '':'' @ JSON_stringify v) # stringifyMembers kvs"

subsection \<open>JSON.parse\<close>

datatype token = LBracket | RBracket | LBrace | RBrace | Colon | Comma | Scalar json

definition isDigit :: "jschar \<Rightarrow> bool" where
  "isDigit c \<longleftrightarrow> 0x30 \<le> c \<and> c \<le> 0x39"

definition decimalValue :: "jsstring \<Rightarrow> nat" where
  "decimalValue ds = foldl (\<lambda>a c. 10 * a + (unat c - 0x30)) 0 ds"

definition simpleEscape :: "jschar \<Rightarrow> jschar option" where
  "simpleEscape e =
     (if e = DQUOTE then Some DQUOTE
      else if e = BACKSLASH then Some BACKSLASH
      else if e = 0x2F then Some 0x2F
      else if e = 0x62 then Some 0x08
      else if e = 0x66 then Some 0x0C
      else if e = 0x6E then Some 0x0A
      else if e = 0x72 then Some 0x0D
      else if e = 0x74 then Some 0x09
      else None)"

definition hex4Value :: "jschar \<Rightarrow> jschar \<Rightarrow> jschar \<Rightarrow> jschar \<Rightarrow> jschar option" where
  "hex4Value h1 h2 h3 h4 =
     (case (hexValue h1, hexValue h2, hexValue h3, hexValue h4) of
        (Some a, Some b, Some c, Some d) \<Rightarrow> Some (of_nat (((a * 16 + b) * 16 + c) * 16 + d))
      | _ \<Rightarrow> None)"

text \<open>
  The characters of a string literal after its opening quote: the string denoted and the
  text after the closing quote.
\<close>

fun scanString :: "jsstring \<Rightarrow> (jsstring \<times> jsstring) option" where
  "scanString [] = None"
| "scanString (c # cs) =
     (if c = DQUOTE then Some ([], cs)
      else if c = BACKSLASH then
        (case cs of
           [] \<Rightarrow> None
         | e # es \<Rightarrow>
             if e = 0x75 then
               (case es of
                  h1 # h2 # h3 # h4 # r \<Rightarrow>
                    (case hex4Value h1 h2 h3 h4 of
                       None \<Rightarrow> None
                     | Some u \<Rightarrow> map_option (apfst ((#) u)) (scanString r))
                | _ \<Rightarrow> None)
             else
               (case simpleEscape e of
                  None \<Rightarrow> None
                | Some x \<Rightarrow> map_option (apfst ((#) x)) (scanString es)))
      else if c < 0x20 then None
      else map_option (apfst ((#) c)) (scanString cs))"

text \<open>
  A number literal at the head of the text: its value and the text after it. An integer
  literal is read exactly; a literal with a fraction or an exponent denotes a double, and
  is kept as its spelling.
\<close>

definition scanFraction :: "jsstring \<Rightarrow> (bool \<times> jsstring) option" where
  "scanFraction r =
     (case r of
        [] \<Rightarrow> Some (False, r)
      | c # cs \<Rightarrow>
          if c = 0x2E then
            (if takeWhile isDigit cs = [] then None else Some (True, dropWhile isDigit cs))
          else Some (False, r))"

definition scanExponent :: "jsstring \<Rightarrow> (bool \<times> jsstring) option" where
  "scanExponent r =
     (case r of
        [] \<Rightarrow> Some (False, r)
      | c # cs \<Rightarrow>
          if c = 0x65 \<or> c = 0x45 then
            (let t = (case cs of [] \<Rightarrow> [] | s # ss \<Rightarrow> if s = 0x2B \<or> s = MINUS then ss else cs)
             in if takeWhile isDigit t = [] then None else Some (True, dropWhile isDigit t))
          else Some (False, r))"

definition scanNumber :: "jsstring \<Rightarrow> (json \<times> jsstring) option" where
  "scanNumber s =
     (let neg = (s \<noteq> [] \<and> hd s = MINUS);
          body = (if neg then tl s else s);
          ip = takeWhile isDigit body
      in if ip = [] \<or> (hd ip = 0x30 \<and> 1 < length ip) then None
         else
           (case scanFraction (dropWhile isDigit body) of
              None \<Rightarrow> None
            | Some (hasFraction, r2) \<Rightarrow>
                (case scanExponent r2 of
                   None \<Rightarrow> None
                 | Some (hasExponent, r3) \<Rightarrow>
                     if hasFraction \<or> hasExponent
                     then Some (JNumberLit (take (length s - length r3) s), r3)
                     else Some (JNumber (if neg then - int (decimalValue ip)
                                         else int (decimalValue ip)), r3))))"

definition isJsonSpace :: "jschar \<Rightarrow> bool" where
  "isJsonSpace c \<longleftrightarrow> c = 0x20 \<or> c = 0x09 \<or> c = 0x0A \<or> c = 0x0D"

function tokenize :: "jsstring \<Rightarrow> token list option" where
  "tokenize [] = Some []"
| "tokenize (c # cs) =
     (if isJsonSpace c then tokenize cs
      else if c = 0x5B then map_option ((#) LBracket) (tokenize cs)
      else if c = 0x5D then map_option ((#) RBracket) (tokenize cs)
      else if c = 0x7B then map_option ((#) LBrace) (tokenize cs)
      else if c = 0x7D then map_option ((#) RBrace) (tokenize cs)
      else if c = 0x3A then map_option ((#) Colon) (tokenize cs)
      else if c = 0x2C then map_option ((#) Comma) (tokenize cs)
      else if c = DQUOTE then
        (case scanString cs of
           None \<Rightarrow> None
         | Some (s, rest) \<Rightarrow> map_option ((#) (Scalar (JString s))) (tokenize rest))
      else if c = MINUS \<or> isDigit c then
        (case scanNumber (c # cs) of
           None \<Rightarrow> None
         | Some (v, rest) \<Rightarrow> map_option ((#) (Scalar v)) (tokenize rest))
      else if startsWith (c # cs) (js ''true'') then
        map_option ((#) (Scalar (JBool True))) (tokenize (drop 3 cs))
      else if startsWith (c # cs) (js ''false'') then
        map_option ((#) (Scalar (JBool False))) (tokenize (drop 4 cs))
      else if startsWith (c # cs) (js ''null'') then
        map_option ((#) (Scalar JNull)) (tokenize (drop 3 cs))
      else None)"
  by pat_completeness auto
termination
proof (relation "measure length")
  have str: "length r \<le> length s" if "scanString s = Some (v, r)" for s v r
    using that
  proof (induction s arbitrary: v r rule: scanString.induct)
    case 1
    then show ?case by simp
  next
    case (2 c cs)
    then show ?case
      by (fastforce split: if_splits list.splits option.splits)
  qed
  have frac: "length r \<le> length s" if "scanFraction s = Some (b, r)" for s b r
    using that length_dropWhile_le [of isDigit "tl s"]
    by (auto simp: scanFraction_def split: list.splits if_splits)
  have expo: "length r \<le> length s" if "scanExponent s = Some (b, r)" for s b r
  proof (cases s)
    case Nil
    with that show ?thesis by (simp add: scanExponent_def)
  next
    case (Cons c cs)
    show ?thesis
    proof (cases "c = 0x65 \<or> c = 0x45")
      case False
      with that Cons show ?thesis by (simp add: scanExponent_def)
    next
      case True
      define t where "t = (case cs of [] \<Rightarrow> [] | s # ss \<Rightarrow> if s = 0x2B \<or> s = MINUS then ss else cs)"
      have "length t \<le> length cs" by (auto simp: t_def split: list.splits)
      moreover from that Cons True have "r = dropWhile isDigit t"
        by (auto simp: scanExponent_def t_def Let_def split: if_splits)
      ultimately show ?thesis
        using length_dropWhile_le [of isDigit t] Cons by simp
    qed
  qed
  have num: "length r < length s" if "scanNumber s = Some (v, r)" for s v r
  proof -
    define body where "body = (if s \<noteq> [] \<and> hd s = MINUS then tl s else s)"
    have b: "length body \<le> length s" by (simp add: body_def)
    from that have ne: "takeWhile isDigit body \<noteq> []"
      by (auto simp: scanNumber_def Let_def body_def split: if_splits)
    have "length (takeWhile isDigit body) + length (dropWhile isDigit body) = length body"
      by (metis length_append takeWhile_dropWhile_id)
    with ne have d: "length (dropWhile isDigit body) < length body"
      by (cases "takeWhile isDigit body") auto
    from that obtain hf r2 he where f: "scanFraction (dropWhile isDigit body) = Some (hf, r2)"
      and e: "scanExponent r2 = Some (he, r)"
      by (auto simp: scanNumber_def Let_def body_def split: if_splits option.splits)
    from frac [OF f] expo [OF e] d b show ?thesis by simp
  qed
  show "wf (measure length)" by simp
  show "\<And>c cs x2 x y. \<lbrakk>\<not> isJsonSpace c; c \<noteq> 91; c \<noteq> 93; c \<noteq> 123; c \<noteq> 125; c \<noteq> 58; c \<noteq> 44; c = DQUOTE;
        scanString cs = Some x2; (x, y) = x2\<rbrakk> \<Longrightarrow> (y, c # cs) \<in> measure length"
    using str by force
  show "\<And>c cs x2 x y. \<lbrakk>\<not> isJsonSpace c; c \<noteq> 91; c \<noteq> 93; c \<noteq> 123; c \<noteq> 125; c \<noteq> 58; c \<noteq> 44; c \<noteq> DQUOTE;
        c = MINUS \<or> isDigit c; scanNumber (c # cs) = Some x2; (x, y) = x2\<rbrakk> \<Longrightarrow> (y, c # cs) \<in> measure length"
    using num by force
qed auto

text \<open>
  Own properties are kept in the order in which JavaScript enumerates them: array indices
  first, in ascending order, then the other keys in the order of their creation. A key
  that is defined again keeps its place and takes the new value.
\<close>

definition isArrayIndex :: "jsstring \<Rightarrow> bool" where
  "isArrayIndex k \<longleftrightarrow>
     k \<noteq> [] \<and> (\<forall>c \<in> set k. isDigit c) \<and> (hd k = 0x30 \<longrightarrow> length k = 1) \<and>
     decimalValue k \<le> 4294967294"

fun insertIndex :: "jsstring \<Rightarrow> json \<Rightarrow> (jsstring \<times> json) list \<Rightarrow> (jsstring \<times> json) list" where
  "insertIndex k v [] = [(k, v)]"
| "insertIndex k v ((k', v') # rest) =
     (if isArrayIndex k' \<and> decimalValue k' < decimalValue k
      then (k', v') # insertIndex k v rest
      else (k, v) # (k', v') # rest)"

definition defineProperty :: "jsstring \<Rightarrow> json \<Rightarrow> (jsstring \<times> json) list \<Rightarrow> (jsstring \<times> json) list" where
  "defineProperty k v ps =
     (if k \<in> fst ` set ps then map (\<lambda>(k', v'). if k' = k then (k', v) else (k', v')) ps
      else if isArrayIndex k then insertIndex k v ps
      else ps @ [(k, v)])"

text \<open>
  The parser is a pushdown automaton over the tokens. A frame is an array or an object
  under construction (the elements of an array in reverse; an object with the key that
  awaits its value).
\<close>

datatype frame =
  InArray "json list"
| InObject "(jsstring \<times> json) list" "jsstring option"

datatype expect =
  PValue | PFirstElement | PFirstKey | PKey | PColon | PAfter | PDone json

definition complete :: "json \<Rightarrow> frame list \<Rightarrow> (expect \<times> frame list) option" where
  "complete v stack =
     (case stack of
        [] \<Rightarrow> Some (PDone v, [])
      | InArray acc # fs \<Rightarrow> Some (PAfter, InArray (v # acc) # fs)
      | InObject ps (Some k) # fs \<Rightarrow> Some (PAfter, InObject (defineProperty k v ps) None # fs)
      | InObject ps None # fs \<Rightarrow> None)"

definition startValue :: "token \<Rightarrow> frame list \<Rightarrow> (expect \<times> frame list) option" where
  "startValue t stack =
     (case t of
        Scalar v \<Rightarrow> complete v stack
      | LBracket \<Rightarrow> Some (PFirstElement, InArray [] # stack)
      | LBrace \<Rightarrow> Some (PFirstKey, InObject [] None # stack)
      | _ \<Rightarrow> None)"

definition readKey :: "token \<Rightarrow> frame list \<Rightarrow> (expect \<times> frame list) option" where
  "readKey t stack =
     (case (t, stack) of
        (Scalar (JString k), InObject ps _ # fs) \<Rightarrow> Some (PColon, InObject ps (Some k) # fs)
      | _ \<Rightarrow> None)"

definition transition :: "expect \<Rightarrow> frame list \<Rightarrow> token \<Rightarrow> (expect \<times> frame list) option" where
  "transition st stack t =
     (case st of
        PValue \<Rightarrow> startValue t stack
      | PFirstElement \<Rightarrow>
          (case (t, stack) of
             (RBracket, InArray acc # fs) \<Rightarrow> complete (JArray (rev acc)) fs
           | _ \<Rightarrow> startValue t stack)
      | PFirstKey \<Rightarrow>
          (case (t, stack) of
             (RBrace, InObject ps _ # fs) \<Rightarrow> complete (JObject ps) fs
           | _ \<Rightarrow> readKey t stack)
      | PKey \<Rightarrow> readKey t stack
      | PColon \<Rightarrow> (case t of Colon \<Rightarrow> Some (PValue, stack) | _ \<Rightarrow> None)
      | PAfter \<Rightarrow>
          (case (t, stack) of
             (Comma, InArray acc # fs) \<Rightarrow> Some (PValue, stack)
           | (RBracket, InArray acc # fs) \<Rightarrow> complete (JArray (rev acc)) fs
           | (Comma, InObject ps _ # fs) \<Rightarrow> Some (PKey, stack)
           | (RBrace, InObject ps _ # fs) \<Rightarrow> complete (JObject ps) fs
           | _ \<Rightarrow> None)
      | PDone v \<Rightarrow> None)"

fun parseTokens :: "expect \<Rightarrow> frame list \<Rightarrow> token list \<Rightarrow> json option" where
  "parseTokens st stack [] = (case st of PDone v \<Rightarrow> Some v | _ \<Rightarrow> None)"
| "parseTokens st stack (t # ts) =
     (case transition st stack t of
        None \<Rightarrow> None
      | Some (st', stack') \<Rightarrow> parseTokens st' stack' ts)"

definition JSON_parse :: "jsstring \<Rightarrow> error + json" where
  "JSON_parse text =
     (case tokenize text of
        None \<Rightarrow> Inl SyntaxError
      | Some ts \<Rightarrow>
          (case parseTokens PValue [] ts of None \<Rightarrow> Inl SyntaxError | Some v \<Rightarrow> Inr v))"

subsection \<open>The comparison of a parsed value with zero\<close>

text \<open>
  Whether \<open>v > 0\<close> is true in JavaScript for a value \<open>v\<close> that \<open>JSON.parse\<close> has returned.
  The value is converted to a number: a string by the grammar of numeric strings (white
  space around it dropped; a signed decimal literal, \<open>Infinity\<close>, or an unsigned binary,
  octal or hexadecimal integer; anything else is NaN), an array through the string that
  joins its elements, an object to NaN or to a TypeError. A decimal literal with a
  non-zero digit and no minus sign is positive as a double unless it rounds to zero, which
  it does when it is at most 2 to the -1075.
\<close>

definition radixPositive :: "(jschar \<Rightarrow> bool) \<Rightarrow> jsstring \<Rightarrow> bool" where
  "radixPositive ok ds \<longleftrightarrow> ds \<noteq> [] \<and> (\<forall>d \<in> set ds. ok d) \<and> (\<exists>d \<in> set ds. d \<noteq> 0x30)"

definition exponentOf :: "jsstring \<Rightarrow> int option" where
  "exponentOf r =
     (case r of
        [] \<Rightarrow> Some 0
      | c # cs \<Rightarrow>
          if c = 0x65 \<or> c = 0x45 then
            (let neg = (cs \<noteq> [] \<and> hd cs = MINUS);
                 ds = (if cs \<noteq> [] \<and> (hd cs = 0x2B \<or> hd cs = MINUS) then tl cs else cs)
             in if ds \<noteq> [] \<and> (\<forall>d \<in> set ds. isDigit d)
                then Some (if neg then - int (decimalValue ds) else int (decimalValue ds))
                else None)
          else None)"

definition decimalPositive :: "jsstring \<Rightarrow> bool" where
  "decimalPositive u =
     (let ip = takeWhile isDigit u;
          r1 = dropWhile isDigit u;
          dot = (r1 \<noteq> [] \<and> hd r1 = 0x2E);
          fp = (if dot then takeWhile isDigit (tl r1) else []);
          r2 = (if dot then dropWhile isDigit (tl r1) else r1);
          m = decimalValue (ip @ fp)
      in if ip = [] \<and> fp = [] then False
         else
           (case exponentOf r2 of
              None \<Rightarrow> False
            | Some x \<Rightarrow>
                0 < m \<and>
                (let k = x - int (length fp)
                 in 0 \<le> k \<or> 10 ^ nat (- k) < m * 2 ^ 1075)))"

definition stringPositive :: "jsstring \<Rightarrow> bool" where
  "stringPositive s =
     (case trim s of
        [] \<Rightarrow> False
      | c # cs \<Rightarrow>
          if c = 0x30 \<and> cs \<noteq> [] \<and> (hd cs = 0x78 \<or> hd cs = 0x58)
          then radixPositive (\<lambda>d. hexValue d \<noteq> None) (tl cs)
          else if c = 0x30 \<and> cs \<noteq> [] \<and> (hd cs = 0x6F \<or> hd cs = 0x4F)
          then radixPositive (\<lambda>d. 0x30 \<le> d \<and> d \<le> 0x37) (tl cs)
          else if c = 0x30 \<and> cs \<noteq> [] \<and> (hd cs = 0x62 \<or> hd cs = 0x42)
          then radixPositive (\<lambda>d. d = 0x30 \<or> d = 0x31) (tl cs)
          else if c = MINUS then False
          else
            (let u = (if c = 0x2B then cs else c # cs)
             in u = js ''Infinity'' \<or> decimalPositive u))"

text \<open>
  \<open>outer\<close> tells the value compared from an element of an array: \<open>true > 0\<close> holds, while
  \<open>[true] > 0\<close> compares the string \<open>true\<close>.
\<close>

fun isPositive :: "bool \<Rightarrow> json \<Rightarrow> bool" where
  "isPositive outer JNull = False"
| "isPositive outer (JBool b) = (outer \<and> b)"
| "isPositive outer (JNumber n) = (0 < n)"
| "isPositive outer (JNumberLit t) = stringPositive t"
| "isPositive outer (JString s) = stringPositive s"
| "isPositive outer (JArray [v]) = isPositive False v"
| "isPositive outer (JArray vs) = False"
| "isPositive outer (JObject ps) = False"

section \<open>The history store\<close>

text \<open>
  The store is the item under the one storage key: absent, or a text. \<open>x || d\<close> on such an
  item yields \<open>d\<close> when the item is absent or the empty string.
\<close>

definition orElse :: "jsstring option \<Rightarrow> jsstring \<Rightarrow> jsstring" where
  "orElse x d = (case x of None \<Rightarrow> d | Some s \<Rightarrow> if s = [] then d else s)"

text \<open>
  \<open>getHistory\<close>: the parse sits in a \<open>try\<close> whose \<open>catch\<close> returns the empty array. The
  result is whatever the text denotes; the declared type \<open>HistoryItem[]\<close> is not checked
  at run time.
\<close>

definition getHistory :: "jsstring option \<Rightarrow> error + json" where
  "getHistory item =
     (case JSON_parse (orElse item (js ''[]'')) of
        Inl e \<Rightarrow> Inr (JArray [])
      | Inr v \<Rightarrow> Inr v)"





record HistoryItem =
  id' :: int
  svg :: jsstring
  code :: jsstring
  date :: jsstring

definition itemJson :: "HistoryItem \<Rightarrow> json" where
  "itemJson x =
     JObject [(js ''id'', JNumber (id' x)), (js ''svg'', JString (svg x)),
              (js ''code'', JString (code x)), (js ''date'', JString (date x))]"

definition historyJson :: "HistoryItem list \<Rightarrow> json" where
  "historyJson h = JArray (map itemJson h)"

text \<open>
  \<open>history[0].svg === currentSvg\<close> on a non-empty array: reading a property of \<open>null\<close>
  throws TypeError; a value other than an object has no such property.
\<close>

definition headIsDuplicate :: "json list \<Rightarrow> jsstring \<Rightarrow> error + bool" where
  "headIsDuplicate items currentSvg =
     (case items of
        [] \<Rightarrow> Inr False
      | JNull # _ \<Rightarrow> Inl TypeError
      | JObject ps # _ \<Rightarrow> Inr (map_of ps (js ''svg'') = Some (JString currentSvg))
      | _ # _ \<Rightarrow> Inr False)"

text \<open>
  The same test on a stored object, which has a \<open>length\<close> and an element \<open>0\<close> only as
  keys of its own: the test holds when the \<open>length\<close> is positive and the value at \<open>0\<close> is an
  object whose \<open>svg\<close> is the current one. In every other case the test is false or throws.
\<close>

definition objectIsDuplicate :: "(jsstring \<times> json) list \<Rightarrow> jsstring \<Rightarrow> bool" where
  "objectIsDuplicate ps currentSvg =
     ((case map_of ps (js ''length'') of None \<Rightarrow> False | Some v \<Rightarrow> isPositive True v) \<and>
      (case map_of ps (js ''0'') of
         Some (JObject qs) \<Rightarrow> map_of qs (js ''svg'') = Some (JString currentSvg)
       | _ \<Rightarrow> False))"

text \<open>
  \<open>saveHistory\<close> as it is in the variant of the page that tests for duplicates, up to its
  write to the store (the rendering that follows is not part of the store). \<open>now\<close> is what
  \<open>Date.now()\<close> returns and \<open>localTime\<close> what \<open>new Date().toLocaleString()\<close> returns at the
  call. The store is taken to accept every write. A stored value that is not an array has
  no \<open>unshift\<close>, which is a TypeError, unless the function has returned at the duplicate
  test before.
\<close>

definition saveHistory :: "int \<Rightarrow> jsstring \<Rightarrow> els \<Rightarrow> jsstring option \<Rightarrow> error + jsstring option" where
  "saveHistory now localTime e item =
     (let currentSvg = trim (svgInput e);
          currentOutput = trim (outputCode e)
      in if currentSvg = [] then Inr item
         else
           let entry = \<lparr>id' = now, svg = currentSvg, code = currentOutput, date = localTime\<rparr>
           in case getHistory item of
                Inl err \<Rightarrow> Inl err
              | Inr (JArray history) \<Rightarrow>
                  (case headIsDuplicate history currentSvg of
                     Inl err \<Rightarrow> Inl err
                   | Inr True \<Rightarrow> Inr item
                   | Inr False \<Rightarrow>
                       let history = itemJson entry # history;
                           history = (if 50 < length history then butlast history else history)
                       in Inr (Some (JSON_stringify (JArray history))))
              | Inr (JObject ps) \<Rightarrow>
                  if objectIsDuplicate ps currentSvg then Inr item else Inl TypeError
              | Inr _ \<Rightarrow> Inl TypeError)"

text \<open>
  \<open>saveHistory\<close> as it is in \<open>src/main.ts\<close>: the same function without the duplicate test.
\<close>

definition saveHistory_main :: "int \<Rightarrow> jsstring \<Rightarrow> els \<Rightarrow> jsstring option \<Rightarrow> error + jsstring option" where
  "saveHistory_main now localTime e item =
     (let currentSvg = trim (svgInput e);
          currentOutput = trim (outputCode e)
      in if currentSvg = [] then Inr item
         else
           let entry = \<lparr>id' = now, svg = currentSvg, code = currentOutput, date = localTime\<rparr>
           in case getHistory item of
                Inl err \<Rightarrow> Inl err
              | Inr (JArray history) \<Rightarrow>
                  let history = itemJson entry # history;
                      history = (if 50 < length history then butlast history else history)
                  in Inr (Some (JSON_stringify (JArray history)))
              | Inr _ \<Rightarrow> Inl TypeError)"

text \<open>
  A sequence of calls of \<open>saveHistory\<close>, each with its clock reading, local time and page
  contents, stopping at the first error.
\<close>

fun saveAll :: "(int \<times> jsstring \<times> els) list \<Rightarrow> jsstring option \<Rightarrow> error + jsstring option" where
  "saveAll [] item = Inr item"
| "saveAll ((now, localTime, e) # calls) item =
     (case saveHistory now localTime e item of
        Inl err \<Rightarrow> Inl err
      | Inr item' \<Rightarrow> saveAll calls item')"

section \<open>The specification's wording\<close>

text \<open>
  The specification describes the canonical source in words: the trimmed input with all
  line breaks removed and every run of white space collapsed to one space. These
  definitions follow those words; the theorems compare them with what the code computes.
\<close>

definition isLineBreak :: "jschar \<Rightarrow> bool" where
  "isLineBreak c \<longleftrightarrow> c = CR \<or> c = LF"

fun collapseRuns :: "jsstring \<Rightarrow> jsstring" where
  "collapseRuns [] = []"
| "collapseRuns [c] = (if isWhiteSpace c then [SPACE] else [c])"
| "collapseRuns (c # d # ds) =
     (if isWhiteSpace c then
        (if isWhiteSpace d then collapseRuns (d # ds) else SPACE # collapseRuns (d # ds))
      else c # collapseRuns (d # ds))"

definition spec_canonical :: "jsstring \<Rightarrow> jsstring" where
  "spec_canonical s = collapseRuns (filter (\<lambda>c. \<not> isLineBreak c) (trim s))"

text \<open>A string is well formed when it has no unpaired surrogate.\<close>

fun isWellFormed :: "jsstring \<Rightarrow> bool" where
  "isWellFormed [] = True"
| "isWellFormed (c # cs) =
     (if isHighSurrogate c then
        (case cs of [] \<Rightarrow> False | d # ds \<Rightarrow> isLowSurrogate d \<and> isWellFormed ds)
      else if isLowSurrogate c then False
      else isWellFormed cs)"

text \<open>
  A canonical string, in the specification's words: no line break, every run of white space
  a single space, and no white space at either end.
\<close>

fun singleSpaced :: "jsstring \<Rightarrow> bool" where
  "singleSpaced [] = True"
| "singleSpaced [c] = (isWhiteSpace c \<longrightarrow> c = SPACE)"
| "singleSpaced (c # d # ds) =
     ((isWhiteSpace c \<longrightarrow> c = SPACE \<and> \<not> isWhiteSpace d) \<and> singleSpaced (d # ds))"

definition canonical :: "jsstring \<Rightarrow> bool" where
  "canonical c \<longleftrightarrow> (\<forall>x \<in> set c. \<not> isLineBreak x) \<and> singleSpaced c \<and> trim c = c"



text \<open>The entry that a call of \<open>saveHistory\<close> builds.\<close>

definition newEntry :: "int \<Rightarrow> jsstring \<Rightarrow> els \<Rightarrow> HistoryItem" where
  "newEntry now localTime e =
     \<lparr>id' = now, svg = trim (svgInput e), code = trim (outputCode e), date = localTime\<rparr>"

text \<open>The history after \<open>unshift\<close> and the \<open>pop\<close> beyond fifty entries.\<close>

definition pushed :: "HistoryItem \<Rightarrow> HistoryItem list \<Rightarrow> HistoryItem list" where
  "pushed x h = (if 50 < length (x # h) then butlast (x # h) else x # h)"

text \<open>Fifty-one calls with inputs \<open>a\<close>, \<open>aa\<close>, \<open>aaa\<close> and so on, as an example.\<close>

definition sampleCalls :: "(int \<times> jsstring \<times> els) list" where
  "sampleCalls =
     map (\<lambda>i. (int i, js ''now'', blank\<lparr>svgInput := replicate (Suc i) 0x61\<rparr>)) [0..<51]"


definition arrayLikeStore :: jsstring where
  "arrayLikeStore =
     js ''{'' @ [DQUOTE] @ js ''length'' @ [DQUOTE] @ js '':1,'' @
     [DQUOTE] @ js ''0'' @ [DQUOTE] @ js '':{'' @
     [DQUOTE] @ js ''svg'' @ [DQUOTE] @ js '':'' @ [DQUOTE] @ js ''<svg/>'' @ [DQUOTE] @ js ''}}''"

text \<open>The tokens of a stored history item, for the proofs about the parser.\<close>

definition itemTokens :: "HistoryItem \<Rightarrow> token list" where
  "itemTokens x =
     [LBrace, Scalar (JString (js ''id'')), Colon, Scalar (JNumber (id' x)), Comma,
      Scalar (JString (js ''svg'')), Colon, Scalar (JString (svg x)), Comma,
      Scalar (JString (js ''code'')), Colon, Scalar (JString (code x)), Comma,
      Scalar (JString (js ''date'')), Colon, Scalar (JString (date x)), RBrace]"

section \<open>Properties of the encoder\<close>

subsection \<open>Line breaks, white space and unpaired surrogates\<close>

lemma removeLineBreaks_filter:
  "removeLineBreaks s = filter (\<lambda>c. \<not> isLineBreak c) s"
  by (induction s rule: removeLineBreaks.induct) (auto simp: isLineBreak_def CR_def LF_def)

lemma collapseRuns_run:
  "isWhiteSpace c \<Longrightarrow> collapseRuns (c # cs) = SPACE # collapseRuns (dropWhile isWhiteSpace cs)"
  by (induction cs arbitrary: c) auto

lemma collapseWhitespace_runs: "collapseWhitespace s = collapseRuns s"
proof (induction s rule: collapseWhitespace.induct)
  case 1
  show ?case by simp
next
  case (2 c cs)
  show ?case
  proof (cases "isWhiteSpace c")
    case True
    with 2 show ?thesis by (simp add: collapseRuns_run)
  next
    case False
    with 2 show ?thesis by (cases cs) auto
  qed
qed

lemma unreserved_not_surrogate:
  "uriUnreserved c \<Longrightarrow> \<not> isHighSurrogate c \<and> \<not> isLowSurrogate c"
  unfolding uriUnreserved_def isHighSurrogate_def isLowSurrogate_def
  by (auto simp: word_le_nat_alt)

lemma high_not_low: "isHighSurrogate c \<Longrightarrow> \<not> isLowSurrogate c"
  unfolding isHighSurrogate_def isLowSurrogate_def
  by (auto simp: word_le_nat_alt)

lemma encode_unreserved:
  "uriUnreserved c \<Longrightarrow>
     encodeURIComponent (c # cs) =
       (case encodeURIComponent cs of Inl e \<Rightarrow> Inl e | Inr r \<Rightarrow> Inr (c # r))"
  by simp

lemma encode_pair:
  "isHighSurrogate c \<Longrightarrow> isLowSurrogate d \<Longrightarrow>
     encodeURIComponent (c # d # ds) =
       (case encodeURIComponent ds of
          Inl e \<Rightarrow> Inl e
        | Inr r \<Rightarrow> Inr (pctEncode (surrogatePair c d) @ r))"
  using unreserved_not_surrogate [of c] high_not_low [of c] by auto

lemma encode_single:
  "\<not> uriUnreserved c \<Longrightarrow> \<not> isHighSurrogate c \<Longrightarrow> \<not> isLowSurrogate c \<Longrightarrow>
     encodeURIComponent (c # cs) =
       (case encodeURIComponent cs of
          Inl e \<Rightarrow> Inl e
        | Inr r \<Rightarrow> Inr (pctEncode (unat c) @ r))"
  by simp

lemma encode_lone_low: "isLowSurrogate c \<Longrightarrow> encodeURIComponent (c # cs) = Inl URIError"
  using unreserved_not_surrogate [of c] by auto

lemma encode_lone_high_end: "isHighSurrogate c \<Longrightarrow> encodeURIComponent [c] = Inl URIError"
  using unreserved_not_surrogate [of c] by auto

lemma encode_lone_high:
  "isHighSurrogate c \<Longrightarrow> \<not> isLowSurrogate d \<Longrightarrow> encodeURIComponent (c # d # ds) = Inl URIError"
  using unreserved_not_surrogate [of c] by auto

lemma encodeURIComponent_wellFormed:
  "isWellFormed s \<Longrightarrow> \<exists>r. encodeURIComponent s = Inr r"
proof (induction s rule: isWellFormed.induct)
  case 1
  show ?case by simp
next
  case (2 c cs)
  show ?case
  proof (cases "isHighSurrogate c")
    case True
    with "2.prems" obtain d ds where cs: "cs = d # ds" and d: "isLowSurrogate d" and wf: "isWellFormed ds"
      by (auto split: list.splits)
    from "2.IH"(1) [OF True cs] d wf obtain r where "encodeURIComponent ds = Inr r" by auto
    then show ?thesis by (simp only: cs encode_pair [OF True d]) simp
  next
    case False
    with "2.prems" have lo: "\<not> isLowSurrogate c" and wf: "isWellFormed cs"
      by (auto split: if_splits)
    from "2.IH"(2) [OF False lo] wf obtain r where r: "encodeURIComponent cs = Inr r" by auto
    show ?thesis
    proof (cases "uriUnreserved c")
      case True
      then show ?thesis by (simp only: encode_unreserved) (simp add: r)
    next
      case u: False
      then show ?thesis by (simp only: encode_single [OF u False lo]) (simp add: r)
    qed
  qed
qed

lemma encodeURIComponent_illFormed:
  "\<not> isWellFormed s \<Longrightarrow> encodeURIComponent s = Inl URIError"
proof (induction s rule: isWellFormed.induct)
  case 1
  then show ?case by simp
next
  case (2 c cs)
  show ?case
  proof (cases "isHighSurrogate c")
    case True
    show ?thesis
    proof (cases cs)
      case Nil
      then show ?thesis by (simp only: encode_lone_high_end [OF True])
    next
      case (Cons d ds)
      show ?thesis
      proof (cases "isLowSurrogate d")
        case d: True
        with "2.prems" True Cons have "\<not> isWellFormed ds" by simp
        with "2.IH"(1) [OF True Cons] have "encodeURIComponent ds = Inl URIError" by simp
        then show ?thesis by (simp only: Cons encode_pair [OF True d]) simp
      next
        case d: False
        then show ?thesis by (simp only: Cons encode_lone_high [OF True d])
      qed
    qed
  next
    case False
    show ?thesis
    proof (cases "isLowSurrogate c")
      case True
      then show ?thesis by (simp only: encode_lone_low)
    next
      case lo: False
      with "2.prems" False have "\<not> isWellFormed cs" by simp
      with "2.IH"(2) [OF False lo] have r: "encodeURIComponent cs = Inl URIError" by simp
      show ?thesis
      proof (cases "uriUnreserved c")
        case True
        then show ?thesis by (simp only: encode_unreserved) (simp add: r)
      next
        case u: False
        then show ?thesis by (simp only: encode_single [OF u False lo]) (simp add: r)
      qed
    qed
  qed
qed
lemma encodeAsDataUri_wellFormed:
  "isWellFormed s \<Longrightarrow> \<exists>u. encodeAsDataUri s = Inr u"
  using encodeURIComponent_wellFormed [of s] by (auto simp: encodeAsDataUri_def)

lemma encodeAsDataUri_illFormed:
  "\<not> isWellFormed s \<Longrightarrow> encodeAsDataUri s = Inl URIError"
  by (simp add: encodeAsDataUri_def encodeURIComponent_illFormed)

subsection \<open>Plain input\<close>

text \<open>
  C1, as the code has it. When the trimmed input is not empty and starts with neither
  \<open><link\<close> nor the data URI prefix, the canonical source is the trimmed input with every
  CR and LF deleted and then every run of white space replaced by one space, provided that
  text has no unpaired surrogate; with one, \<open>encodeURIComponent\<close> throws URIError. A line
  break is deleted, not turned into a space.
\<close>

theorem canonicalSource_plain:
  assumes "trim s \<noteq> []"
    and "\<not> startsWith (trim s) (js ''<link'')"
    and "\<not> startsWith (trim s) DATA_PREFIX"
  shows "(isWellFormed (spec_canonical s) \<longrightarrow>
            (\<exists>u t. normalize_input s = Inr (Result (spec_canonical s) u t))) \<and>
         (\<not> isWellFormed (spec_canonical s) \<longrightarrow> normalize_input s = Inl URIError)"
proof -
  have clean: "collapseWhitespace (removeLineBreaks (trim s)) = spec_canonical s"
    by (simp add: spec_canonical_def removeLineBreaks_filter collapseWhitespace_runs)
  have run: "normalize_input s = snd (generate (blank\<lparr>svgInput := s\<rparr>) (trim s))"
    using assms by (simp add: normalize_input_def processInput_def fromDataUri_def)
  show ?thesis
  proof (cases "isWellFormed (spec_canonical s)")
    case True
    then obtain u where "encodeAsDataUri (spec_canonical s) = Inr u"
      using encodeAsDataUri_wellFormed by blast
    with True show ?thesis
      by (simp add: run generate_def clean Let_def)
  next
    case False
    then show ?thesis
      by (simp add: run generate_def clean encodeAsDataUri_illFormed)
  qed
qed

theorem canonicalSource_plain_witness:
  "trim (js ''<svg>'' @ [CR, LF] @ js ''</svg>'') \<noteq> [] \<and>
   \<not> startsWith (trim (js ''<svg>'' @ [CR, LF] @ js ''</svg>'')) (js ''<link'') \<and>
   \<not> startsWith (trim (js ''<svg>'' @ [CR, LF] @ js ''</svg>'')) DATA_PREFIX \<and>
   isWellFormed (spec_canonical (js ''<svg>'' @ [CR, LF] @ js ''</svg>'')) \<and>
   spec_canonical (js ''<svg>'' @ [CR, LF] @ js ''</svg>'') = js ''<svg></svg>'' \<and>
   (\<exists>u t. normalize_input (js ''<svg>'' @ [CR, LF] @ js ''</svg>'') =
            Inr (Result (js ''<svg></svg>'') u t))"
proof -
  let ?s = "js ''<svg>'' @ [CR, LF] @ js ''</svg>''"
  have a: "trim ?s \<noteq> []"
    by (simp add: trim_def js_def isWhiteSpace_def CR_def LF_def)
  have b: "\<not> startsWith (trim ?s) (js ''<link'')"
    by (simp add: trim_def js_def isWhiteSpace_def CR_def LF_def startsWith_def)
  have c: "\<not> startsWith (trim ?s) DATA_PREFIX"
    by (simp add: trim_def js_def isWhiteSpace_def CR_def LF_def startsWith_def DATA_PREFIX_def)
  have d: "spec_canonical ?s = js ''<svg></svg>''"
    by (simp add: spec_canonical_def trim_def js_def isLineBreak_def CR_def LF_def
        isWhiteSpace_def)
  have e: "isWellFormed (spec_canonical ?s)"
    unfolding d by (simp add: js_def isHighSurrogate_def isLowSurrogate_def)
  show ?thesis
    using a b c d e canonicalSource_plain [OF a b c] by simp
qed

text \<open>
  C1 as stated fails at its own example: the input \<open><svg>\<close> CR LF \<open></svg>\<close> becomes
  \<open><svg></svg>\<close>, since the line break is removed before white space is collapsed.
\<close>

theorem crlf_not_a_space:
  "normalize_input (js ''<svg>'' @ [CR, LF] @ js ''</svg>'') =
     Inr (Result (js ''<svg></svg>'')
            (js ''data:image/svg+xml,%3Csvg%3E%3C%2Fsvg%3E'')
            (linkTag (js ''data:image/svg+xml,%3Csvg%3E%3C%2Fsvg%3E''))) \<and>
   js ''<svg></svg>'' \<noteq> js ''<svg> </svg>''"
  by (simp add: normalize_input_def processInput_def fromDataUri_def generate_def
      encodeAsDataUri_def blank_def trim_def isWhiteSpace_def js_def startsWith_def
      DATA_PREFIX_def PERCENT_def CR_def LF_def SPACE_def DQUOTE_def APOS_def
      uriUnreserved_def isHighSurrogate_def isLowSurrogate_def pctEncode_def pctOctet_def
      utf8Encode_def hexDigit_def replaceAllChar_def quoteEscapes_def Let_def)

subsection \<open>Pasted link tags\<close>

lemma trim_id:
  "s \<noteq> [] \<Longrightarrow> \<not> isWhiteSpace (hd s) \<Longrightarrow> \<not> isWhiteSpace (last s) \<Longrightarrow> trim s = s"
proof -
  assume s: "s \<noteq> []" and h: "\<not> isWhiteSpace (hd s)" and l: "\<not> isWhiteSpace (last s)"
  from s h have 1: "dropWhile isWhiteSpace s = s" by (cases s) auto
  from s l have "\<not> isWhiteSpace (hd (rev s))" by (simp add: hd_rev)
  with s have 2: "dropWhile isWhiteSpace (rev s) = rev s" by (cases "rev s") auto
  show ?thesis by (simp add: trim_def 1 2)
qed

lemma matchHrefAt_needs_quote: "DQUOTE \<notin> set s \<Longrightarrow> matchHrefAt s = None"
proof (rule ccontr)
  assume nq: "DQUOTE \<notin> set s" and "matchHrefAt s \<noteq> None"
  then have "startsWith s (js ''href='' @ [DQUOTE])"
    by (auto simp: matchHrefAt_def split: if_splits)
  then have eq: "take (length (js ''href='' @ [DQUOTE])) s = js ''href='' @ [DQUOTE]"
    by (simp only: startsWith_def)
  have "DQUOTE \<in> set (take (length (js ''href='' @ [DQUOTE])) s)"
    by (simp only: eq) simp
  then have "DQUOTE \<in> set s" by (rule in_set_takeD)
  with nq show False by simp
qed

lemma matchHref_needs_quote: "DQUOTE \<notin> set s \<Longrightarrow> matchHref s = None"
proof (induction s)
  case Nil
  show ?case by simp
next
  case (Cons c cs)
  then have "matchHrefAt (c # cs) = None" by (intro matchHrefAt_needs_quote) simp
  with Cons show ?case by simp
qed

lemma matchHrefAt_here:
  "DQUOTE \<notin> set x \<Longrightarrow> matchHrefAt (js ''href='' @ [DQUOTE] @ x @ DQUOTE # t) = Some x"
proof -
  assume nq: "DQUOTE \<notin> set x"
  then have "takeWhile (\<lambda>c. c \<noteq> DQUOTE) (x @ DQUOTE # t) = x"
    by (auto simp: takeWhile_tail)
  then show ?thesis
    by (simp add: matchHrefAt_def startsWith_def js_def Let_def)
qed

lemma matchHref_example:
  "DQUOTE \<notin> set x \<Longrightarrow>
     matchHref (js ''<link rel='' @ [DQUOTE] @ js ''icon'' @ [DQUOTE] @ js '' href='' @
                [DQUOTE] @ x @ [DQUOTE] @ js '' />'') = Some x"
  using matchHrefAt_here [of x "js '' />''"]
  by (simp add: matchHrefAt_def startsWith_def js_def DQUOTE_def)

lemma snd_generate: "snd (generate e raw) = snd (generate e' raw)"
  by (simp add: generate_def Let_def split: sum.splits)

lemma snd_fromDataUri: "snd (fromDataUri e raw) = snd (fromDataUri e' raw)"
  using snd_generate by (auto simp: fromDataUri_def split: sum.splits)

lemma matchHrefAt_elsewhere:
  "\<not> startsWith s (js ''href='' @ [DQUOTE]) \<Longrightarrow> matchHrefAt s = None"
  by (simp add: matchHrefAt_def)

lemma takeWhile_whole: "c \<notin> set r \<Longrightarrow> \<not> length (takeWhile (\<lambda>x. x \<noteq> c) r) < length r"
  by (induction r) auto

lemma matchHrefAt_unclosed:
  assumes "DQUOTE \<notin> set (drop 6 s)"
  shows "matchHrefAt s = None"
proof -
  from assms have n: "\<not> length (takeWhile (\<lambda>c. c \<noteq> DQUOTE) (drop 6 s)) < length (drop 6 s)"
    by (rule takeWhile_whole)
  show ?thesis by (simp only: matchHrefAt_def Let_def n if_False if_cancel)
qed

lemma matchHref_first:
  assumes "DQUOTE \<notin> set v"
    and "\<forall>i<length pre. \<not> startsWith (drop i (pre @ js ''href='' @ [DQUOTE] @ v @ DQUOTE # post))
           (js ''href='' @ [DQUOTE])"
  shows "matchHref (pre @ js ''href='' @ [DQUOTE] @ v @ DQUOTE # post) = Some v"
  using assms(2)
proof (induction pre)
  case Nil
  have "js ''href='' @ [DQUOTE] @ v @ DQUOTE # post \<noteq> []" by (simp add: js_def)
  then obtain c cs where e: "js ''href='' @ [DQUOTE] @ v @ DQUOTE # post = c # cs"
    by (cases "js ''href='' @ [DQUOTE] @ v @ DQUOTE # post") auto
  from matchHrefAt_here [OF assms(1), of post]
  have "matchHrefAt (c # cs) = Some v" by (simp only: e)
  then have "matchHref (c # cs) = Some v" by simp
  then show ?case by (simp only: e append_Nil)
next
  case (Cons c pre)
  let ?r = "pre @ js ''href='' @ [DQUOTE] @ v @ DQUOTE # post"
  from Cons.prems have "\<not> startsWith (drop 0 (c # ?r)) (js ''href='' @ [DQUOTE])"
    by (metis append_Cons length_greater_0_conv list.distinct(1))
  then have n: "matchHrefAt (c # ?r) = None" by (simp add: matchHrefAt_elsewhere)
  have "\<forall>i<length pre. \<not> startsWith (drop i ?r) (js ''href='' @ [DQUOTE])"
  proof (intro allI impI)
    fix i assume "i < length pre"
    then have "Suc i < length (c # pre)" by simp
    with Cons.prems have "\<not> startsWith (drop (Suc i) ((c # pre) @ js ''href='' @ [DQUOTE] @ v @ DQUOTE # post))
           (js ''href='' @ [DQUOTE])" by blast
    then show "\<not> startsWith (drop i ?r) (js ''href='' @ [DQUOTE])" by simp
  qed
  then have "matchHref ?r = Some v" by (rule Cons.IH)
  with n show ?case by simp
qed

lemma matchHref_none:
  assumes "\<forall>i. startsWith (drop i t) (js ''href='' @ [DQUOTE]) \<longrightarrow> DQUOTE \<notin> set (drop (i + 6) t)"
  shows "matchHref t = None"
  using assms
proof (induction t)
  case Nil
  show ?case by simp
next
  case (Cons c cs)
  from Cons.prems have "startsWith (drop 0 (c # cs)) (js ''href='' @ [DQUOTE]) \<longrightarrow>
      DQUOTE \<notin> set (drop (0 + 6) (c # cs))" by blast
  then have n: "matchHrefAt (c # cs) = None"
    using matchHrefAt_elsewhere [of "c # cs"] matchHrefAt_unclosed [of "c # cs"] by auto
  have "\<forall>i. startsWith (drop i cs) (js ''href='' @ [DQUOTE]) \<longrightarrow> DQUOTE \<notin> set (drop (i + 6) cs)"
  proof (intro allI impI)
    fix i assume "startsWith (drop i cs) (js ''href='' @ [DQUOTE])"
    then have "startsWith (drop (Suc i) (c # cs)) (js ''href='' @ [DQUOTE])" by simp
    with Cons.prems have "DQUOTE \<notin> set (drop (Suc i + 6) (c # cs))" by blast
    moreover have "drop (Suc i + 6) (c # cs) = drop (i + 6) cs"
      by (simp only: add_Suc drop_Suc_Cons)
    ultimately show "DQUOTE \<notin> set (drop (i + 6) cs)" by metis
  qed
  then have "matchHref cs = None" by (rule Cons.IH)
  with n show ?case by simp
qed

lemma fromDataUri_empty:
  "snd (fromDataUri e []) = Inr (Result [] DATA_PREFIX (linkTag DATA_PREFIX))"
  by (simp add: fromDataUri_def generate_def encodeAsDataUri_def startsWith_def DATA_PREFIX_def
      js_def quoteEscapes_def replaceAllChar_def Let_def)


lemma matchHrefAt_Some_D:
  assumes "matchHrefAt s = Some g"
  shows "\<exists>post. s = js ''href='' @ [DQUOTE] @ g @ DQUOTE # post \<and> DQUOTE \<notin> set g"
proof -
  let ?P = "\<lambda>c. c \<noteq> DQUOTE"
  let ?r = "drop 6 s"
  from assms have st: "startsWith s (js ''href='' @ [DQUOTE])"
    by (simp add: matchHrefAt_def split: if_splits)
  with assms have g: "g = takeWhile ?P ?r" and l: "length (takeWhile ?P ?r) < length ?r"
    by (simp_all only: matchHrefAt_def Let_def if_True split: if_splits) simp_all
  have "length (js ''href='' @ [DQUOTE]) = 6" by (simp add: js_def)
  with st have "take 6 s = js ''href='' @ [DQUOTE]" by (simp only: startsWith_def)
  then have s: "s = (js ''href='' @ [DQUOTE]) @ ?r" by (metis append_take_drop_id)
  have id: "takeWhile ?P ?r @ dropWhile ?P ?r = ?r" by (rule takeWhile_dropWhile_id)
  from l id have ne: "dropWhile ?P ?r \<noteq> []" by (metis append_Nil2 less_irrefl)
  then have "\<not> ?P (hd (dropWhile ?P ?r))" by (rule hd_dropWhile)
  with ne obtain post where d: "dropWhile ?P ?r = DQUOTE # post"
    by (cases "dropWhile ?P ?r") auto
  from id d g have "?r = g @ DQUOTE # post" by simp
  with s have "s = js ''href='' @ [DQUOTE] @ g @ DQUOTE # post" by (metis append_assoc)
  moreover have "DQUOTE \<notin> set g" unfolding g by (auto dest: set_takeWhileD)
  ultimately show ?thesis by blast
qed

lemma takeWhile_stops: "c \<in> set r \<Longrightarrow> length (takeWhile (\<lambda>x. x \<noteq> c) r) < length r"
  by (induction r) auto

lemma matchHrefAt_None_D:
  assumes "matchHrefAt s = None" "startsWith s (js ''href='' @ [DQUOTE])"
  shows "DQUOTE \<notin> set (drop 6 s)"
proof
  assume "DQUOTE \<in> set (drop 6 s)"
  then have "length (takeWhile (\<lambda>c. c \<noteq> DQUOTE) (drop 6 s)) < length (drop 6 s)"
    by (rule takeWhile_stops)
  with assms show False by (simp only: matchHrefAt_def Let_def if_True) simp
qed

lemma drop_long_prefix: "n \<le> length a \<Longrightarrow> x \<in> set r \<Longrightarrow> x \<in> set (drop n (a @ r))"
  by simp

lemma later_quote:
  "DQUOTE \<in> set (drop 6 (c # pre @ js ''href='' @ [DQUOTE] @ v @ DQUOTE # post))"
proof -
  have "DQUOTE \<in> set (drop 6 (((c # pre) @ js ''href='' @ [DQUOTE]) @ (v @ DQUOTE # post)))"
    by (rule drop_long_prefix) (simp_all add: js_def)
  then show ?thesis by simp
qed

lemma matchHref_Some_D:
  "matchHref t = Some v \<Longrightarrow>
     \<exists>pre post. t = pre @ js ''href='' @ [DQUOTE] @ v @ [DQUOTE] @ post \<and> DQUOTE \<notin> set v \<and>
       (\<forall>i<length pre. \<not> startsWith (drop i t) (js ''href='' @ [DQUOTE]))"
proof (induction t)
  case Nil
  then show ?case by simp
next
  case (Cons c cs)
  show ?case
  proof (cases "matchHrefAt (c # cs)")
    case (Some g)
    with Cons.prems have "g = v" by simp
    with Some matchHrefAt_Some_D [of "c # cs" v] obtain post where
      "c # cs = js ''href='' @ [DQUOTE] @ v @ DQUOTE # post" "DQUOTE \<notin> set v" by blast
    then have "c # cs = [] @ js ''href='' @ [DQUOTE] @ v @ [DQUOTE] @ post \<and> DQUOTE \<notin> set v \<and>
       (\<forall>i<length ([] :: jsstring). \<not> startsWith (drop i (c # cs)) (js ''href='' @ [DQUOTE]))"
      by simp
    then show ?thesis by blast
  next
    case None
    with Cons.prems have "matchHref cs = Some v" by simp
    from Cons.IH [OF this] obtain pre post where
      cs: "cs = pre @ js ''href='' @ [DQUOTE] @ v @ [DQUOTE] @ post" and v: "DQUOTE \<notin> set v"
      and f: "\<forall>i<length pre. \<not> startsWith (drop i cs) (js ''href='' @ [DQUOTE])"
      by blast
    have "DQUOTE \<in> set (drop 6 (c # cs))" unfolding cs using later_quote [of c pre v post] by simp
    with None matchHrefAt_None_D [of "c # cs"]
    have z: "\<not> startsWith (c # cs) (js ''href='' @ [DQUOTE])" by blast
    have "\<forall>i<length (c # pre). \<not> startsWith (drop i (c # cs)) (js ''href='' @ [DQUOTE])"
    proof (intro allI impI)
      fix i assume i: "i < length (c # pre)"
      show "\<not> startsWith (drop i (c # cs)) (js ''href='' @ [DQUOTE])"
      proof (cases i)
        case 0
        with z show ?thesis by simp
      next
        case (Suc j)
        with i f show ?thesis by simp
      qed
    qed
    moreover from cs have "c # cs = (c # pre) @ js ''href='' @ [DQUOTE] @ v @ [DQUOTE] @ post"
      by simp
    ultimately show ?thesis using v by blast
  qed
qed

lemma matchHref_None_D:
  "matchHref t = None \<Longrightarrow>
     \<forall>i. startsWith (drop i t) (js ''href='' @ [DQUOTE]) \<longrightarrow> DQUOTE \<notin> set (drop (i + 6) t)"
proof (induction t)
  case Nil
  show ?case by (simp add: startsWith_def js_def)
next
  case (Cons c cs)
  from Cons.prems have a: "matchHrefAt (c # cs) = None" and b: "matchHref cs = None"
    by (simp_all split: option.splits)
  show ?case
  proof (intro allI impI)
    fix i assume st: "startsWith (drop i (c # cs)) (js ''href='' @ [DQUOTE])"
    show "DQUOTE \<notin> set (drop (i + 6) (c # cs))"
    proof (cases i)
      case 0
      with st a matchHrefAt_None_D [of "c # cs"] show ?thesis by simp
    next
      case (Suc j)
      with st have "startsWith (drop j cs) (js ''href='' @ [DQUOTE])" by simp
      with Cons.IH [OF b] have "DQUOTE \<notin> set (drop (j + 6) cs)" by blast
      moreover have "drop (Suc j + 6) (c # cs) = drop (j + 6) cs"
        by (simp only: add_Suc drop_Suc_Cons)
      ultimately show ?thesis unfolding Suc by metis
    qed
  qed
qed

text \<open>
  C5, as the code has it. Let the trimmed input start with \<open><link\<close>. When it reads
  \<open>pre href="v" post\<close>, where \<open>v\<close> holds no double quote and no \<open>href="\<close> begins inside \<open>pre\<close>
  (so this is the first \<open>href="\<close>, and \<open>v\<close> runs to the next double quote), processing
  continues with \<open>v\<close> as it is: \<open>v\<close> is neither trimmed again nor tested for emptiness, and an
  empty \<open>v\<close> gives the data URI of the empty text. When no \<open>href="\<close> of the trimmed input has
  a double quote after it, processing continues with the trimmed input. Every text is of
  one of these two kinds. So the tag \<open><link rel="icon" href="X" />\<close> gives what \<open>X\<close> gives
  whenever \<open>X\<close> is not empty, has no white space at either end and holds no double quote.
\<close>

theorem link_unwrapping:
  "(startsWith (trim s) (js ''<link'') \<and>
    trim s = pre @ js ''href='' @ [DQUOTE] @ v @ [DQUOTE] @ post \<and> DQUOTE \<notin> set v \<and>
    (\<forall>i<length pre. \<not> startsWith (drop i (trim s)) (js ''href='' @ [DQUOTE])) \<longrightarrow>
      normalize_input s = snd (fromDataUri blank v) \<and>
      (v = [] \<longrightarrow> normalize_input s = Inr (Result [] DATA_PREFIX (linkTag DATA_PREFIX)))) \<and>
   (startsWith (trim s) (js ''<link'') \<and>
    (\<forall>i. startsWith (drop i (trim s)) (js ''href='' @ [DQUOTE]) \<longrightarrow>
         DQUOTE \<notin> set (drop (i + 6) (trim s))) \<longrightarrow>
      normalize_input s = snd (fromDataUri blank (trim s))) \<and>
   ((\<exists>pre v post. trim s = pre @ js ''href='' @ [DQUOTE] @ v @ [DQUOTE] @ post \<and>
        DQUOTE \<notin> set v \<and>
        (\<forall>i<length pre. \<not> startsWith (drop i (trim s)) (js ''href='' @ [DQUOTE]))) \<or>
    (\<forall>i. startsWith (drop i (trim s)) (js ''href='' @ [DQUOTE]) \<longrightarrow>
         DQUOTE \<notin> set (drop (i + 6) (trim s)))) \<and>
   (x \<noteq> [] \<and> trim x = x \<and> DQUOTE \<notin> set x \<longrightarrow>
      normalize_input
        (js ''<link rel='' @ [DQUOTE] @ js ''icon'' @ [DQUOTE] @ js '' href='' @ [DQUOTE] @
         x @ [DQUOTE] @ js '' />'') = normalize_input x)"
proof -
  have ne: "t \<noteq> []" if "startsWith t (js ''<link'')" for t
    using that by (auto simp: startsWith_def js_def)
  have first: "normalize_input s = snd (fromDataUri blank v) \<and>
      (v = [] \<longrightarrow> normalize_input s = Inr (Result [] DATA_PREFIX (linkTag DATA_PREFIX)))"
    if h: "startsWith (trim s) (js ''<link'') \<and>
      trim s = pre @ js ''href='' @ [DQUOTE] @ v @ [DQUOTE] @ post \<and> DQUOTE \<notin> set v \<and>
      (\<forall>i<length pre. \<not> startsWith (drop i (trim s)) (js ''href='' @ [DQUOTE]))"
  proof -
    from h have t: "trim s = pre @ js ''href='' @ [DQUOTE] @ v @ DQUOTE # post" by simp
    from h have "\<forall>i<length pre. \<not> startsWith (drop i (pre @ js ''href='' @ [DQUOTE] @ v @ DQUOTE # post))
           (js ''href='' @ [DQUOTE])"
      unfolding t by blast
    with h have "matchHref (pre @ js ''href='' @ [DQUOTE] @ v @ DQUOTE # post) = Some v"
      by (intro matchHref_first) simp_all
    then have m: "matchHref (trim s) = Some v" by (simp only: t)
    from h have st: "startsWith (trim s) (js ''<link'')" by blast
    from st ne have n: "trim s \<noteq> []" by blast
    from st n m have "normalize_input s = snd (fromDataUri (blank\<lparr>svgInput := s\<rparr>) v)"
      by (simp add: normalize_input_def processInput_def)
    then have "normalize_input s = snd (fromDataUri blank v)"
      by (simp only: snd_fromDataUri [of "blank\<lparr>svgInput := s\<rparr>" v blank])
    then show ?thesis by (simp add: fromDataUri_empty)
  qed
  have second: "normalize_input s = snd (fromDataUri blank (trim s))"
    if h: "startsWith (trim s) (js ''<link'') \<and>
      (\<forall>i. startsWith (drop i (trim s)) (js ''href='' @ [DQUOTE]) \<longrightarrow>
         DQUOTE \<notin> set (drop (i + 6) (trim s)))"
  proof -
    from h have m: "matchHref (trim s) = None" by (intro matchHref_none) blast
    from h have st: "startsWith (trim s) (js ''<link'')" by blast
    from st ne have n: "trim s \<noteq> []" by blast
    from st n m
    have "normalize_input s = snd (fromDataUri (blank\<lparr>svgInput := s\<rparr>) (trim s))"
      by (simp add: normalize_input_def processInput_def)
    then show ?thesis
      by (simp only: snd_fromDataUri [of "blank\<lparr>svgInput := s\<rparr>" "trim s" blank])
  qed
  have third: "(\<exists>pre v post. trim s = pre @ js ''href='' @ [DQUOTE] @ v @ [DQUOTE] @ post \<and>
        DQUOTE \<notin> set v \<and>
        (\<forall>i<length pre. \<not> startsWith (drop i (trim s)) (js ''href='' @ [DQUOTE]))) \<or>
    (\<forall>i. startsWith (drop i (trim s)) (js ''href='' @ [DQUOTE]) \<longrightarrow>
         DQUOTE \<notin> set (drop (i + 6) (trim s)))"
  proof (cases "matchHref (trim s)")
    case None
    then show ?thesis by (intro disjI2 matchHref_None_D)
  next
    case (Some g)
    from matchHref_Some_D [OF this] show ?thesis by blast
  qed
  have fourth: "normalize_input
        (js ''<link rel='' @ [DQUOTE] @ js ''icon'' @ [DQUOTE] @ js '' href='' @ [DQUOTE] @
         x @ [DQUOTE] @ js '' />'') = normalize_input x"
    if x: "x \<noteq> [] \<and> trim x = x \<and> DQUOTE \<notin> set x"
  proof -
    let ?t = "js ''<link rel='' @ [DQUOTE] @ js ''icon'' @ [DQUOTE] @ js '' href='' @ [DQUOTE] @
            x @ [DQUOTE] @ js '' />''"
    have "trim ?t = ?t"
      by (rule trim_id) (simp_all add: js_def isWhiteSpace_def)
    moreover have "startsWith ?t (js ''<link'')"
      by (simp add: startsWith_def js_def)
    moreover have "matchHref ?t = Some x"
      using x by (intro matchHref_example) simp
    moreover have "?t \<noteq> []" by (simp add: js_def)
    ultimately have l: "normalize_input ?t = snd (fromDataUri (blank\<lparr>svgInput := ?t\<rparr>) x)"
      by (simp add: normalize_input_def processInput_def)
    from x have "matchHref x = None" by (simp add: matchHref_needs_quote)
    with x have r: "normalize_input x = snd (fromDataUri (blank\<lparr>svgInput := x\<rparr>) x)"
      by (simp add: normalize_input_def processInput_def)
    show ?thesis
      unfolding l r by (rule snd_fromDataUri)
  qed
  from first second third fourth show ?thesis by blast
qed

lemmas encoder_eval =
  normalize_input_def processInput_def fromDataUri_def generate_def
  encodeAsDataUri_def blank_def trim_def isWhiteSpace_def js_def startsWith_def
  DATA_PREFIX_def PERCENT_def CR_def LF_def SPACE_def DQUOTE_def APOS_def
  uriUnreserved_def isHighSurrogate_def isLowSurrogate_def pctEncode_def pctOctet_def
  utf8Encode_def hexDigit_def replaceAllChar_def quoteEscapes_def Let_def matchHrefAt_def

theorem link_unwrapping_witness:
  "startsWith (trim (js ''<link href='' @ [DQUOTE, DQUOTE] @ js ''>'')) (js ''<link'') \<and>
   trim (js ''<link href='' @ [DQUOTE, DQUOTE] @ js ''>'') =
     js ''<link '' @ js ''href='' @ [DQUOTE] @ [] @ [DQUOTE] @ js ''>'' \<and>
   normalize_input (js ''<link href='' @ [DQUOTE, DQUOTE] @ js ''>'') =
     Inr (Result [] DATA_PREFIX (linkTag DATA_PREFIX)) \<and>
   trim (js ''<link href='' @ [DQUOTE] @ js '' a '' @ [DQUOTE] @ js ''>'') =
     js ''<link '' @ js ''href='' @ [DQUOTE] @ js '' a '' @ [DQUOTE] @ js ''>'' \<and>
   normalize_input (js ''<link href='' @ [DQUOTE] @ js '' a '' @ [DQUOTE] @ js ''>'') =
     Inr (Result (js '' a '') (js ''data:image/svg+xml,%20a%20'')
            (linkTag (js ''data:image/svg+xml,%20a%20''))) \<and>
   normalize_input (js '' a '') =
     Inr (Result (js ''a'') (js ''data:image/svg+xml,a'') (linkTag (js ''data:image/svg+xml,a''))) \<and>
   normalize_input (js ''<link href='' @ [DQUOTE] @ js ''X'') =
     Inr (Result (js ''<link href='' @ [DQUOTE] @ js ''X'')
            (js ''data:image/svg+xml,%3Clink%20href%3D%22X'')
            (linkTag (js ''data:image/svg+xml,%3Clink%20href%3D%22X''))) \<and>
   normalize_input (js ''<link rel='' @ [DQUOTE] @ js ''icon'' @ [DQUOTE] @ js '' href='' @
          [DQUOTE] @ js ''X'' @ [DQUOTE] @ js '' />'') = normalize_input (js ''X'')"
proof -
  let ?H = "js ''href='' @ [DQUOTE]"
  let ?s1 = "js ''<link href='' @ [DQUOTE, DQUOTE] @ js ''>''"
  let ?s2 = "js ''<link href='' @ [DQUOTE] @ js '' a '' @ [DQUOTE] @ js ''>''"
  let ?s3 = "js ''<link href='' @ [DQUOTE] @ js ''X''"
  have a1: "startsWith (trim ?s1) (js ''<link'')"
    and b1: "trim ?s1 = js ''<link '' @ js ''href='' @ [DQUOTE] @ [] @ [DQUOTE] @ js ''>''"
    and c1: "\<forall>i<length (js ''<link ''). \<not> startsWith (drop i (trim ?s1)) ?H"
    by (simp_all add: trim_def js_def isWhiteSpace_def DQUOTE_def startsWith_def All_less_Suc)
  have d1: "DQUOTE \<notin> set ([] :: jsstring)" by simp
  have h1: "startsWith (trim ?s1) (js ''<link'') \<and>
      trim ?s1 = js ''<link '' @ js ''href='' @ [DQUOTE] @ [] @ [DQUOTE] @ js ''>'' \<and>
      DQUOTE \<notin> set ([] :: jsstring) \<and>
      (\<forall>i<length (js ''<link ''). \<not> startsWith (drop i (trim ?s1)) ?H)"
    by (intro conjI a1 b1 c1 d1)
  from link_unwrapping [of ?s1 "js ''<link ''" "[]" "js ''>''", THEN conjunct1, THEN mp, OF h1,
      THEN conjunct2, THEN mp, OF refl]
  have r1: "normalize_input ?s1 = Inr (Result [] DATA_PREFIX (linkTag DATA_PREFIX))" .
  have a2: "startsWith (trim ?s2) (js ''<link'')"
    and b2: "trim ?s2 = js ''<link '' @ js ''href='' @ [DQUOTE] @ js '' a '' @ [DQUOTE] @ js ''>''"
    and c2: "\<forall>i<length (js ''<link ''). \<not> startsWith (drop i (trim ?s2)) ?H"
    and d2: "DQUOTE \<notin> set (js '' a '')"
    by (simp_all add: trim_def js_def isWhiteSpace_def DQUOTE_def startsWith_def All_less_Suc)
  have h2: "startsWith (trim ?s2) (js ''<link'') \<and>
      trim ?s2 = js ''<link '' @ js ''href='' @ [DQUOTE] @ js '' a '' @ [DQUOTE] @ js ''>'' \<and>
      DQUOTE \<notin> set (js '' a '') \<and>
      (\<forall>i<length (js ''<link ''). \<not> startsWith (drop i (trim ?s2)) ?H)"
    by (intro conjI a2 b2 c2 d2)
  from link_unwrapping [of ?s2 "js ''<link ''" "js '' a ''" "js ''>''", THEN conjunct1, THEN mp,
      OF h2, THEN conjunct1]
  have "normalize_input ?s2 = snd (fromDataUri blank (js '' a ''))" .
  also have "\<dots> = Inr (Result (js '' a '') (js ''data:image/svg+xml,%20a%20'')
            (linkTag (js ''data:image/svg+xml,%20a%20'')))"
    by (simp add: encoder_eval)
  finally have r2: "normalize_input ?s2 = Inr (Result (js '' a '') (js ''data:image/svg+xml,%20a%20'')
            (linkTag (js ''data:image/svg+xml,%20a%20'')))" .
  have p2: "normalize_input (js '' a '') =
     Inr (Result (js ''a'') (js ''data:image/svg+xml,a'') (linkTag (js ''data:image/svg+xml,a'')))"
    by (simp add: encoder_eval)
  have t3: "trim ?s3 = [0x3C, 0x6C, 0x69, 0x6E, 0x6B, 0x20, 0x68, 0x72, 0x65, 0x66, 0x3D, 0x22, 0x58]"
    (is "_ = ?t3")
    by (simp add: trim_def js_def isWhiteSpace_def DQUOTE_def)
  have a3: "startsWith (trim ?s3) (js ''<link'')"
    unfolding t3 by (simp add: startsWith_def js_def)
  have b3: "\<forall>i<length ?t3. startsWith (drop i ?t3) ?H \<longrightarrow> DQUOTE \<notin> set (drop (i + 6) ?t3)"
    by (simp add: All_less_Suc startsWith_def js_def DQUOTE_def)
  have c3: "\<forall>i. startsWith (drop i (trim ?s3)) ?H \<longrightarrow> DQUOTE \<notin> set (drop (i + 6) (trim ?s3))"
    unfolding t3
  proof (intro allI)
    fix i
    show "startsWith (drop i ?t3) ?H \<longrightarrow> DQUOTE \<notin> set (drop (i + 6) ?t3)"
    proof (cases "i < length ?t3")
      case True
      with b3 show ?thesis by blast
    next
      case False
      then have "drop i ?t3 = []" by simp
      then show ?thesis by (simp add: startsWith_def js_def)
    qed
  qed
  have h3: "startsWith (trim ?s3) (js ''<link'') \<and>
      (\<forall>i. startsWith (drop i (trim ?s3)) ?H \<longrightarrow> DQUOTE \<notin> set (drop (i + 6) (trim ?s3)))"
    by (intro conjI a3 c3)
  from link_unwrapping [of ?s3, THEN conjunct2, THEN conjunct1, THEN mp, OF h3]
  have "normalize_input ?s3 = snd (fromDataUri blank (trim ?s3))" .
  also have "\<dots> = Inr (Result ?s3 (js ''data:image/svg+xml,%3Clink%20href%3D%22X'')
            (linkTag (js ''data:image/svg+xml,%3Clink%20href%3D%22X'')))"
    unfolding t3 by (simp add: encoder_eval)
  finally have r3: "normalize_input ?s3 =
     Inr (Result ?s3 (js ''data:image/svg+xml,%3Clink%20href%3D%22X'')
            (linkTag (js ''data:image/svg+xml,%3Clink%20href%3D%22X'')))" .
  have x: "js ''X'' \<noteq> [] \<and> trim (js ''X'') = js ''X'' \<and> DQUOTE \<notin> set (js ''X'')"
    by (simp add: trim_def js_def isWhiteSpace_def DQUOTE_def)
  from link_unwrapping [of _ _ _ _ "js ''X''", THEN conjunct2, THEN conjunct2, THEN conjunct2,
      THEN mp, OF x]
  have r4: "normalize_input (js ''<link rel='' @ [DQUOTE] @ js ''icon'' @ [DQUOTE] @ js '' href='' @
          [DQUOTE] @ js ''X'' @ [DQUOTE] @ js '' />'') = normalize_input (js ''X'')" .
  show ?thesis by (intro conjI a1 b1 r1 b2 r2 p2 r3 r4)
qed

text \<open>
  C5 as stated fails for a single-quoted attribute: the pattern asks for double quotes, so
  \<open><link href='X' />\<close> is not unwrapped and is encoded whole.
\<close>

theorem single_quoted_href_not_unwrapped:
  "normalize_input (js ''<link href='' @ [APOS] @ js ''X'' @ [APOS] @ js '' />'') =
     Inr (Result (js ''<link href='' @ [APOS] @ js ''X'' @ [APOS] @ js '' />'')
            (js ''data:image/svg+xml,%3Clink%20href%3D%27X%27%20%2F%3E'')
            (linkTag (js ''data:image/svg+xml,%3Clink%20href%3D%27X%27%20%2F%3E''))) \<and>
   normalize_input (js ''X'') =
     Inr (Result (js ''X'') (js ''data:image/svg+xml,X'') (linkTag (js ''data:image/svg+xml,X''))) \<and>
   normalize_input (js ''<link href='' @ [APOS] @ js ''X'' @ [APOS] @ js '' />'') \<noteq>
     normalize_input (js ''X'')"
  by (simp add: normalize_input_def processInput_def fromDataUri_def generate_def
      encodeAsDataUri_def blank_def trim_def isWhiteSpace_def js_def startsWith_def
      DATA_PREFIX_def PERCENT_def CR_def LF_def SPACE_def DQUOTE_def APOS_def
      uriUnreserved_def isHighSurrogate_def isLowSurrogate_def pctEncode_def pctOctet_def
      utf8Encode_def hexDigit_def replaceAllChar_def quoteEscapes_def Let_def matchHrefAt_def)

subsection \<open>Decoding what was encoded\<close>

lemma unat_of_nat16: "k < 65536 \<Longrightarrow> unat (of_nat k :: 16 word) = k"
  by (simp add: unat_of_nat)

lemma unat_hexDigit:
  assumes "n < 16"
  shows "unat (hexDigit n) = (if n < 10 then 48 + n else 55 + n)"
proof (cases "n < 10")
  case True
  then have "48 + n < 65536" by simp
  from unat_of_nat16 [OF this] True show ?thesis
    by (simp only: hexDigit_def if_True)
next
  case False
  from assms have "55 + n < 65536" by simp
  from unat_of_nat16 [OF this] False show ?thesis
    by (simp only: hexDigit_def if_False)
qed

lemma hexValue_unat:
  "hexValue c =
     (if 48 \<le> unat c \<and> unat c \<le> 57 then Some (unat c - 48)
      else if 65 \<le> unat c \<and> unat c \<le> 70 then Some (unat c - 55)
      else if 97 \<le> unat c \<and> unat c \<le> 102 then Some (unat c - 87)
      else None)"
  by (simp add: hexValue_def word_le_nat_alt)

lemma hexValue_hexDigit: "n < 16 \<Longrightarrow> hexValue (hexDigit n) = Some n"
  by (simp add: hexValue_unat unat_hexDigit)

lemma parseHexOctet_pct:
  "b < 256 \<Longrightarrow> parseHexOctet (hexDigit (b div 16)) (hexDigit (b mod 16)) = Some b"
proof -
  assume "b < 256"
  then have "b div 16 < 16" by simp
  then show ?thesis by (simp add: parseHexOctet_def hexValue_hexDigit)
qed

lemma uriUnreserved_unat:
  "uriUnreserved c \<longleftrightarrow>
     (65 \<le> unat c \<and> unat c \<le> 90) \<or> (97 \<le> unat c \<and> unat c \<le> 122) \<or>
     (48 \<le> unat c \<and> unat c \<le> 57) \<or> unat c \<in> {45, 95, 46, 33, 126, 42, 39, 40, 41}"
  by (auto simp: uriUnreserved_def word_le_nat_alt word_unat_eq_iff)

lemma hexDigit_unreserved: "n < 16 \<Longrightarrow> uriUnreserved (hexDigit n)"
  by (simp add: uriUnreserved_unat unat_hexDigit)

lemma hexDigit_not_quote: "n < 16 \<Longrightarrow> hexDigit n \<noteq> APOS \<and> hexDigit n \<noteq> DQUOTE"
  by (auto simp: APOS_def DQUOTE_def word_unat_eq_iff unat_hexDigit split: if_splits)

lemma unreserved_plain:
  "uriUnreserved c \<Longrightarrow> c \<noteq> PERCENT \<and> c \<noteq> DQUOTE \<and> \<not> isWhiteSpace c"
  by (auto simp: uriUnreserved_unat PERCENT_def DQUOTE_def isWhiteSpace_def word_unat_eq_iff word_le_nat_alt)

lemma decode_plain:
  "c \<noteq> PERCENT \<Longrightarrow>
     decodeURIComponent (c # cs) =
       (case decodeURIComponent cs of Inl e \<Rightarrow> Inl e | Inr r \<Rightarrow> Inr (c # r))"
  by simp

lemma readEscapes_pct:
  "\<forall>b \<in> set bs. b < 256 \<Longrightarrow> readEscapes (length bs) (concat (map pctOctet bs) @ rest) = Some bs"
  by (induction bs) (simp_all add: pctOctet_def parseHexOctet_pct)

lemma length_pct: "length (concat (map pctOctet bs)) = 3 * length bs"
  by (induction bs) (simp_all add: pctOctet_def)

lemma decode_ascii:
  assumes "b < 128"
  shows "decodeURIComponent (pctOctet b @ rest) =
           (case decodeURIComponent rest of Inl e \<Rightarrow> Inl e | Inr r \<Rightarrow> Inr (of_nat b # r))"
proof -
  from assms have "b < 256" by simp
  then have "parseHexOctet (hexDigit (b div 16)) (hexDigit (b mod 16)) = Some b"
    by (rule parseHexOctet_pct)
  moreover from assms have "leadingOnes b = 0" by (simp add: leadingOnes_def)
  ultimately show ?thesis by (simp add: pctOctet_def)
qed

lemma decode_sequence:
  assumes small: "\<forall>x \<in> set (b # bs). x < 256"
    and lead: "leadingOnes b = Suc (length bs)"
    and len: "1 \<le> length bs" "length bs \<le> 3"
    and cp: "utf8Decode (b # bs) = Some cp"
  shows "decodeURIComponent (concat (map pctOctet (b # bs)) @ rest) =
           (case decodeURIComponent rest of
              Inl e \<Rightarrow> Inl e
            | Inr r \<Rightarrow> Inr (utf16Encode cp @ r))"
proof -
  from small have "b < 256" by simp
  then have hex: "parseHexOctet (hexDigit (b div 16)) (hexDigit (b mod 16)) = Some b"
    by (rule parseHexOctet_pct)
  from small have "\<forall>x \<in> set bs. x < 256" by simp
  then have rd: "readEscapes (length bs) (concat (map pctOctet bs) @ rest) = Some bs"
    by (rule readEscapes_pct)
  have dr: "drop (3 * length bs) (concat (map pctOctet bs) @ rest) = rest"
    by (simp add: length_pct)
  have "decodeURIComponent (PERCENT # hexDigit (b div 16) # hexDigit (b mod 16) #
          (concat (map pctOctet bs) @ rest)) =
        (case decodeURIComponent rest of
           Inl e \<Rightarrow> Inl e
         | Inr r \<Rightarrow> Inr (utf16Encode cp @ r))"
  proof -
    from len have "bs \<noteq> []" by auto
    with lead len show ?thesis by (simp add: hex rd cp length_pct)
  qed
  then show ?thesis by (simp add: pctOctet_def)
qed

lemma d4096: "(cp::nat) div 4096 = cp div 64 div 64" by (simp add: div_mult2_eq [symmetric])
lemma d262144: "(cp::nat) div 262144 = cp div 64 div 64 div 64" by (simp add: div_mult2_eq [symmetric])
lemma lin3: "cp = 64 * q + c \<Longrightarrow> q = 64 * r + b \<Longrightarrow> cp = 4096 * r + 64 * b + c" for cp :: nat
  by simp
lemma lin4: "cp = 64 * q + d \<Longrightarrow> q = 64 * r + c \<Longrightarrow> r = 64 * a + b \<Longrightarrow> cp = 262144 * a + 4096 * b + 64 * c + d" for cp :: nat
  by simp
lemma split3: "(cp::nat) = 4096 * (cp div 4096) + 64 * ((cp div 64) mod 64) + cp mod 64"
  unfolding d4096 by (rule lin3 [where q = "cp div 64"]) simp_all
lemma split4: "(cp::nat) = 262144 * (cp div 262144) + 4096 * ((cp div 4096) mod 64) + 64 * ((cp div 64) mod 64) + cp mod 64"
  unfolding d4096 d262144 by (rule lin4 [where q = "cp div 64" and r = "cp div 64 div 64"]) simp_all

lemma utf8_two:
  assumes "128 \<le> cp" "cp < 2048"
  shows "utf8Encode cp = [192 + cp div 64, 128 + cp mod 64] \<and>
         leadingOnes (192 + cp div 64) = 2 \<and>
         utf8Decode [192 + cp div 64, 128 + cp mod 64] = Some cp \<and>
         192 + cp div 64 < 256 \<and> 128 + cp mod 64 < 256"
proof -
  define a c where "a = cp div 64" and "c = cp mod 64"
  have eq: "cp = 64 * a + c" and c: "c < 64" by (simp_all add: a_def c_def)
  from assms eq c have a: "2 \<le> a" "a < 32" by linarith+
  have "utf8Encode cp = [192 + a, 128 + c]"
    using assms by (simp add: utf8Encode_def a_def c_def)
  moreover have "leadingOnes (192 + a) = 2" using a by (simp add: leadingOnes_def)
  moreover have "utf8Decode [192 + a, 128 + c] = Some cp"
    using a c by (simp add: isContinuation_def eq)
  ultimately have "utf8Encode cp = [192 + a, 128 + c] \<and>
         leadingOnes (192 + a) = 2 \<and>
         utf8Decode [192 + a, 128 + c] = Some cp \<and>
         192 + a < 256 \<and> 128 + c < 256"
    using a c by simp
  then show ?thesis unfolding a_def c_def .
qed

lemma utf8_three:
  assumes "2048 \<le> cp" "cp < 65536" "\<not> (55296 \<le> cp \<and> cp \<le> 57343)"
  shows "utf8Encode cp = [224 + cp div 4096, 128 + cp div 64 mod 64, 128 + cp mod 64] \<and>
         leadingOnes (224 + cp div 4096) = 3 \<and>
         utf8Decode [224 + cp div 4096, 128 + cp div 64 mod 64, 128 + cp mod 64] = Some cp \<and>
         224 + cp div 4096 < 256 \<and> 128 + cp div 64 mod 64 < 256 \<and> 128 + cp mod 64 < 256"
proof -
  define a b c where "a = cp div 4096" and "b = cp div 64 mod 64" and "c = cp mod 64"
  have eq: "cp = 4096 * a + 64 * b + c" unfolding a_def b_def c_def by (rule split3)
  have bc: "b < 64" "c < 64" by (simp_all add: b_def c_def)
  from assms eq bc have a: "a < 16" by linarith
  from assms eq bc have lo: "a = 0 \<longrightarrow> 32 \<le> b" by linarith
  from assms eq bc have hi: "a = 13 \<longrightarrow> b < 32" by linarith
  have "utf8Encode cp = [224 + a, 128 + b, 128 + c]"
    using assms by (simp add: utf8Encode_def a_def b_def c_def)
  moreover have "leadingOnes (224 + a) = 3" using a by (simp add: leadingOnes_def)
  moreover have "utf8Decode [224 + a, 128 + b, 128 + c] = Some cp"
    using a bc lo hi by (auto simp: isContinuation_def eq)
  ultimately have "utf8Encode cp = [224 + a, 128 + b, 128 + c] \<and>
         leadingOnes (224 + a) = 3 \<and>
         utf8Decode [224 + a, 128 + b, 128 + c] = Some cp \<and>
         224 + a < 256 \<and> 128 + b < 256 \<and> 128 + c < 256"
    using a bc by simp
  then show ?thesis unfolding a_def b_def c_def .
qed

lemma utf8_four:
  assumes "65536 \<le> cp" "cp < 1114112"
  shows "utf8Encode cp =
           [240 + cp div 262144, 128 + cp div 4096 mod 64, 128 + cp div 64 mod 64,
            128 + cp mod 64] \<and>
         leadingOnes (240 + cp div 262144) = 4 \<and>
         utf8Decode [240 + cp div 262144, 128 + cp div 4096 mod 64, 128 + cp div 64 mod 64,
            128 + cp mod 64] = Some cp \<and>
         240 + cp div 262144 < 256 \<and> 128 + cp div 4096 mod 64 < 256 \<and>
         128 + cp div 64 mod 64 < 256 \<and> 128 + cp mod 64 < 256"
proof -
  define a b c d where "a = cp div 262144" and "b = cp div 4096 mod 64"
    and "c = cp div 64 mod 64" and "d = cp mod 64"
  have eq: "cp = 262144 * a + 4096 * b + 64 * c + d"
    unfolding a_def b_def c_def d_def by (rule split4)
  have bcd: "b < 64" "c < 64" "d < 64" by (simp_all add: b_def c_def d_def)
  from assms eq bcd have a: "a < 5" by linarith
  from assms eq bcd have lo: "a = 0 \<longrightarrow> 16 \<le> b" by linarith
  from assms eq bcd have hi: "a = 4 \<longrightarrow> b < 16" by linarith
  have "utf8Encode cp = [240 + a, 128 + b, 128 + c, 128 + d]"
    using assms by (simp add: utf8Encode_def a_def b_def c_def d_def)
  moreover have "leadingOnes (240 + a) = 4" using a by (simp add: leadingOnes_def)
  moreover have "utf8Decode [240 + a, 128 + b, 128 + c, 128 + d] = Some cp"
    using a bcd lo hi by (auto simp: isContinuation_def eq)
  ultimately have "utf8Encode cp = [240 + a, 128 + b, 128 + c, 128 + d] \<and>
         leadingOnes (240 + a) = 4 \<and>
         utf8Decode [240 + a, 128 + b, 128 + c, 128 + d] = Some cp \<and>
         240 + a < 256 \<and> 128 + b < 256 \<and> 128 + c < 256 \<and> 128 + d < 256"
    using a bcd by simp
  then show ?thesis unfolding a_def b_def c_def d_def .
qed


lemma decode_pctEncode:
  assumes "cp < 1114112" and "\<not> (55296 \<le> cp \<and> cp \<le> 57343)"
  shows "decodeURIComponent (pctEncode cp @ rest) =
           (case decodeURIComponent rest of
              Inl e \<Rightarrow> Inl e
            | Inr r \<Rightarrow> Inr (utf16Encode cp @ r))"
proof -
  consider (one) "cp < 128" | (two) "128 \<le> cp" "cp < 2048"
    | (three) "2048 \<le> cp" "cp < 65536" | (four) "65536 \<le> cp"
    by linarith
  then show ?thesis
  proof cases
    case one
    then have "pctEncode cp = pctOctet cp" by (simp add: pctEncode_def utf8Encode_def)
    moreover from one have "utf16Encode cp = [of_nat cp]" by (simp add: utf16Encode_def)
    ultimately show ?thesis using decode_ascii [OF one, of rest] by (simp split: sum.splits)
  next
    case two
    note u = utf8_two [OF two]
    from u have e: "pctEncode cp = concat (map pctOctet (hd (utf8Encode cp) # tl (utf8Encode cp)))"
      by (simp add: pctEncode_def)
    show ?thesis
      unfolding e by (rule decode_sequence) (use u in simp_all)
  next
    case three
    note u = utf8_three [OF three assms(2)]
    from u have e: "pctEncode cp = concat (map pctOctet (hd (utf8Encode cp) # tl (utf8Encode cp)))"
      by (simp add: pctEncode_def)
    show ?thesis
      unfolding e by (rule decode_sequence) (use u in simp_all)
  next
    case four
    note u = utf8_four [OF four assms(1)]
    from u have e: "pctEncode cp = concat (map pctOctet (hd (utf8Encode cp) # tl (utf8Encode cp)))"
      by (simp add: pctEncode_def)
    show ?thesis
      unfolding e by (rule decode_sequence) (use u in simp_all)
  qed
qed

lemma utf16_single: "utf16Encode (unat (c :: jschar)) = [c]"
proof -
  have "unat c < 65536" using unsigned_less [of c, where 'a = nat] by simp
  then show ?thesis by (simp add: utf16Encode_def)
qed

lemma surrogate_unat:
  "isHighSurrogate c \<longleftrightarrow> 55296 \<le> unat c \<and> unat c \<le> 56319"
  "isLowSurrogate c \<longleftrightarrow> 56320 \<le> unat c \<and> unat c \<le> 57343"
  by (simp_all add: isHighSurrogate_def isLowSurrogate_def word_le_nat_alt)

lemma lin_pair: "h < 1024 \<Longrightarrow> l < 1024 \<Longrightarrow> (h * 1024 + l) div 1024 = h \<and> (h * 1024 + l) mod 1024 = l"
  for h l :: nat
  by simp

lemma utf16_pair:
  assumes "isHighSurrogate hi" "isLowSurrogate lo"
  shows "utf16Encode (surrogatePair hi lo) = [hi, lo]"
proof -
  define h l where "h = unat hi - 55296" and "l = unat lo - 56320"
  from assms have hl: "h < 1024" "l < 1024" "unat hi = 55296 + h" "unat lo = 56320 + l"
    by (auto simp: surrogate_unat h_def l_def)
  have sp: "surrogatePair hi lo = 65536 + (h * 1024 + l)"
    by (simp add: surrogatePair_def h_def l_def)
  have "utf16Encode (surrogatePair hi lo) = [of_nat (55296 + h), of_nat (56320 + l)]"
    unfolding sp utf16Encode_def using lin_pair [OF hl(1,2)] by simp
  also have "\<dots> = [of_nat (unat hi), of_nat (unat lo)]" by (simp only: hl)
  finally show ?thesis by simp
qed

lemma surrogatePair_scalar:
  assumes "isHighSurrogate hi" "isLowSurrogate lo"
  shows "surrogatePair hi lo < 1114112 \<and> \<not> (55296 \<le> surrogatePair hi lo \<and> surrogatePair hi lo \<le> 57343)"
  using assms by (auto simp: surrogate_unat surrogatePair_def)

lemma single_scalar:
  assumes "\<not> isHighSurrogate c" "\<not> isLowSurrogate c"
  shows "unat c < 1114112 \<and> \<not> (55296 \<le> unat c \<and> unat c \<le> 57343)"
proof -
  have "unat c < 65536" using unsigned_less [of c, where 'a = nat] by simp
  with assms show ?thesis by (auto simp: surrogate_unat)
qed

lemma replaceAllChar_append:
  "replaceAllChar c r (xs @ ys) = replaceAllChar c r xs @ replaceAllChar c r ys"
  by (simp add: replaceAllChar_def)

lemma replaceAllChar_absent: "c \<notin> set s \<Longrightarrow> replaceAllChar c r s = s"
  by (induction s) (auto simp: replaceAllChar_def)

lemma replaceAllChar_Cons:
  "replaceAllChar c r (x # xs) = (if x = c then r else [x]) @ replaceAllChar c r xs"
  by (simp add: replaceAllChar_def)

lemma quoteEscapes_append: "quoteEscapes (xs @ ys) = quoteEscapes xs @ quoteEscapes ys"
  by (simp add: quoteEscapes_def replaceAllChar_append)

lemma quoteEscapes_Nil: "quoteEscapes [] = []"
  by (simp add: quoteEscapes_def replaceAllChar_def)

lemma quoteEscapes_absent:
  "APOS \<notin> set s \<Longrightarrow> DQUOTE \<notin> set s \<Longrightarrow> quoteEscapes s = s"
  by (simp add: quoteEscapes_def replaceAllChar_absent)

lemma quoteEscapes_apos: "quoteEscapes [APOS] = pctOctet 39"
  by (simp add: quoteEscapes_def replaceAllChar_def APOS_def DQUOTE_def js_def pctOctet_def
      hexDigit_def PERCENT_def)

lemma utf8Encode_small:
  assumes "cp < 1114112" and "\<not> (55296 \<le> cp \<and> cp \<le> 57343)"
  shows "\<forall>b \<in> set (utf8Encode cp). b < 256"
proof -
  consider (one) "cp < 128" | (two) "128 \<le> cp" "cp < 2048"
    | (three) "2048 \<le> cp" "cp < 65536" | (four) "65536 \<le> cp"
    by linarith
  then show ?thesis
  proof cases
    case one
    then show ?thesis by (simp add: utf8Encode_def)
  next
    case two
    from utf8_two [OF two] show ?thesis by simp
  next
    case three
    from utf8_three [OF three assms(2)] show ?thesis by simp
  next
    case four
    from utf8_four [OF four assms(1)] show ?thesis by simp
  qed
qed

lemma pctOctet_chars:
  assumes "b < 256" "x \<in> set (pctOctet b)"
  shows "x = PERCENT \<or> (uriUnreserved x \<and> x \<noteq> APOS)"
proof -
  from assms(1) have "b div 16 < 16" "b mod 16 < 16" by simp_all
  then have "uriUnreserved (hexDigit (b div 16)) \<and> hexDigit (b div 16) \<noteq> APOS"
    "uriUnreserved (hexDigit (b mod 16)) \<and> hexDigit (b mod 16) \<noteq> APOS"
    by (simp_all add: hexDigit_unreserved hexDigit_not_quote)
  with assms(2) show ?thesis by (auto simp: pctOctet_def)
qed

lemma pctEncode_chars:
  assumes "cp < 1114112" and "\<not> (55296 \<le> cp \<and> cp \<le> 57343)" and "x \<in> set (pctEncode cp)"
  shows "x = PERCENT \<or> (uriUnreserved x \<and> x \<noteq> APOS)"
proof -
  from assms(3) obtain b where b: "b \<in> set (utf8Encode cp)" and x: "x \<in> set (pctOctet b)"
    by (auto simp: pctEncode_def)
  from utf8Encode_small [OF assms(1,2)] b have "b < 256" by simp
  from pctOctet_chars [OF this x] show ?thesis .
qed

lemma quoteEscapes_pctEncode:
  assumes "cp < 1114112" and "\<not> (55296 \<le> cp \<and> cp \<le> 57343)"
  shows "quoteEscapes (pctEncode cp) = pctEncode cp"
proof (rule quoteEscapes_absent)
  show "APOS \<notin> set (pctEncode cp)"
    using pctEncode_chars [OF assms, of APOS] by (auto simp: APOS_def PERCENT_def)
  show "DQUOTE \<notin> set (pctEncode cp)"
    using pctEncode_chars [OF assms, of DQUOTE] unreserved_plain [of DQUOTE]
    by (auto simp: DQUOTE_def PERCENT_def)
qed

lemma decode_escaped:
  "encodeURIComponent s = Inr enc \<Longrightarrow> decodeURIComponent (quoteEscapes enc) = Inr s"
proof (induction s arbitrary: enc rule: isWellFormed.induct)
  case 1
  then show ?case by (simp add: quoteEscapes_Nil)
next
  case (2 c cs)
  show ?case
  proof (cases "isHighSurrogate c")
    case True
    show ?thesis
    proof (cases cs)
      case Nil
      with "2.prems" encode_lone_high_end [OF True] show ?thesis by simp
    next
      case (Cons d ds)
      show ?thesis
      proof (cases "isLowSurrogate d")
        case d: True
        note eq = encode_pair [OF True d, of ds]
        from "2.prems" obtain r where r: "encodeURIComponent ds = Inr r"
          and enc: "enc = pctEncode (surrogatePair c d) @ r"
          unfolding Cons eq by (auto split: sum.splits)
        from "2.IH"(1) [OF True Cons r] have ih: "decodeURIComponent (quoteEscapes r) = Inr ds" .
        note sc = surrogatePair_scalar [OF True d]
        have "quoteEscapes enc = pctEncode (surrogatePair c d) @ quoteEscapes r"
          using sc by (simp add: enc quoteEscapes_append quoteEscapes_pctEncode)
        then show ?thesis
          using sc by (simp add: decode_pctEncode ih utf16_pair [OF True d] Cons)
      next
        case d: False
        with "2.prems" encode_lone_high [OF True d, of ds] show ?thesis by (simp add: Cons)
      qed
    qed
  next
    case False
    show ?thesis
    proof (cases "isLowSurrogate c")
      case True
      with "2.prems" encode_lone_low [OF True, of cs] show ?thesis by simp
    next
      case lo: False
      show ?thesis
      proof (cases "uriUnreserved c")
        case True
        note eq = encode_unreserved [OF True, of cs]
        from "2.prems" obtain r where r: "encodeURIComponent cs = Inr r" and enc: "enc = c # r"
          unfolding eq by (auto split: sum.splits)
        from "2.IH"(2) [OF False lo r] have ih: "decodeURIComponent (quoteEscapes r) = Inr cs" .
        have split: "quoteEscapes enc = quoteEscapes [c] @ quoteEscapes r"
          unfolding enc using quoteEscapes_append [of "[c]" r] by simp
        show ?thesis
        proof (cases "c = APOS")
          case a: True
          have "decodeURIComponent (pctOctet 39 @ quoteEscapes r) = Inr (of_nat 39 # cs)"
            by (simp add: decode_ascii ih)
          then show ?thesis by (simp add: split a quoteEscapes_apos) (simp add: APOS_def)
        next
          case a: False
          from True have "c \<noteq> DQUOTE" "c \<noteq> PERCENT" using unreserved_plain by auto
          with a have "quoteEscapes [c] = [c]" by (simp add: quoteEscapes_absent)
          with \<open>c \<noteq> PERCENT\<close> show ?thesis by (simp add: split ih)
        qed
      next
        case u: False
        note eq = encode_single [OF u False lo, of cs]
        from "2.prems" obtain r where r: "encodeURIComponent cs = Inr r"
          and enc: "enc = pctEncode (unat c) @ r"
          unfolding eq by (auto split: sum.splits)
        from "2.IH"(2) [OF False lo r] have ih: "decodeURIComponent (quoteEscapes r) = Inr cs" .
        note sc = single_scalar [OF False lo]
        have "quoteEscapes enc = pctEncode (unat c) @ quoteEscapes r"
          using sc by (simp add: enc quoteEscapes_append quoteEscapes_pctEncode)
        then show ?thesis
          using sc by (simp add: decode_pctEncode ih utf16_single)
      qed
    qed
  qed
qed

lemma set_replaceAllChar: "set (replaceAllChar c r s) \<subseteq> set s \<union> set r"
  by (induction s) (auto simp: replaceAllChar_def)

lemma encoded_chars:
  "encodeURIComponent s = Inr enc \<Longrightarrow> \<forall>x \<in> set enc. x = PERCENT \<or> uriUnreserved x"
proof (induction s arbitrary: enc rule: isWellFormed.induct)
  case 1
  then show ?case by simp
next
  case (2 c cs)
  show ?case
  proof (cases "isHighSurrogate c")
    case True
    show ?thesis
    proof (cases cs)
      case Nil
      with "2.prems" encode_lone_high_end [OF True] show ?thesis by simp
    next
      case (Cons d ds)
      show ?thesis
      proof (cases "isLowSurrogate d")
        case d: True
        note eq = encode_pair [OF True d, of ds]
        from "2.prems" obtain r where r: "encodeURIComponent ds = Inr r"
          and enc: "enc = pctEncode (surrogatePair c d) @ r"
          unfolding Cons eq by (auto split: sum.splits)
        note sc = surrogatePair_scalar [OF True d]
        from "2.IH"(1) [OF True Cons r] pctEncode_chars [OF conjunct1 [OF sc] conjunct2 [OF sc]]
        show ?thesis unfolding enc by auto
      next
        case d: False
        with "2.prems" encode_lone_high [OF True d, of ds] show ?thesis by (simp add: Cons)
      qed
    qed
  next
    case False
    show ?thesis
    proof (cases "isLowSurrogate c")
      case True
      with "2.prems" encode_lone_low [OF True, of cs] show ?thesis by simp
    next
      case lo: False
      show ?thesis
      proof (cases "uriUnreserved c")
        case True
        note eq = encode_unreserved [OF True, of cs]
        from "2.prems" obtain r where r: "encodeURIComponent cs = Inr r" and enc: "enc = c # r"
          unfolding eq by (auto split: sum.splits)
        from "2.IH"(2) [OF False lo r] True show ?thesis unfolding enc by auto
      next
        case u: False
        note eq = encode_single [OF u False lo, of cs]
        from "2.prems" obtain r where r: "encodeURIComponent cs = Inr r"
          and enc: "enc = pctEncode (unat c) @ r"
          unfolding eq by (auto split: sum.splits)
        note sc = single_scalar [OF False lo]
        from "2.IH"(2) [OF False lo r] pctEncode_chars [OF conjunct1 [OF sc] conjunct2 [OF sc]]
        show ?thesis unfolding enc by auto
      qed
    qed
  qed
qed

lemma escaped_no_whitespace:
  assumes "encodeURIComponent s = Inr enc" and "x \<in> set (quoteEscapes enc)"
  shows "\<not> isWhiteSpace x"
proof -
  have "set (quoteEscapes enc) \<subseteq> set enc \<union> set (js ''%27'') \<union> set (js ''%22'')"
    unfolding quoteEscapes_def
    using set_replaceAllChar [of DQUOTE "js ''%22''" "replaceAllChar APOS (js ''%27'') enc"]
      set_replaceAllChar [of APOS "js ''%27''" enc]
    by auto
  with assms(2) consider "x \<in> set enc" | "x \<in> set (js ''%27'')" | "x \<in> set (js ''%22'')"
    by auto
  then show ?thesis
  proof cases
    case 1
    with encoded_chars [OF assms(1)] have "x = PERCENT \<or> uriUnreserved x" by simp
    then show ?thesis using unreserved_plain [of x] by (auto simp: PERCENT_def isWhiteSpace_def)
  next
    case 2
    then show ?thesis by (auto simp: js_def isWhiteSpace_def)
  next
    case 3
    then show ?thesis by (auto simp: js_def isWhiteSpace_def)
  qed
qed

lemma collapseRuns_singleSpaced: "singleSpaced s \<Longrightarrow> collapseRuns s = s"
  by (induction s rule: singleSpaced.induct) auto

lemma replaceFirst_prefix: "p \<noteq> [] \<Longrightarrow> replaceFirst p [] (p @ x) = x"
  by (cases p) (simp_all add: startsWith_def)

text \<open>
  C2. For a canonical string \<open>c\<close> that can be encoded (it has no unpaired surrogate), the
  data URI built from it by the encode step, fed back in, is recognised by its prefix,
  percent-decoded to \<open>c\<close> and left unchanged by the minimisation: the canonical source is
  \<open>c\<close> again, with the same data URI and tag.
\<close>

theorem data_uri_round_trip:
  assumes "canonical c" and "encodeAsDataUri c = Inr uri"
  shows "normalize_input uri = Inr (Result c uri (linkTag uri))"
proof -
  from assms(2) obtain enc where enc: "encodeURIComponent c = Inr enc"
    and uri: "uri = DATA_PREFIX @ quoteEscapes enc"
    by (auto simp: encodeAsDataUri_def split: sum.splits)
  have ne: "uri \<noteq> []" by (simp add: uri DATA_PREFIX_def js_def)
  have h: "\<not> isWhiteSpace (hd uri)"
    by (simp add: uri DATA_PREFIX_def js_def isWhiteSpace_def)
  have l: "\<not> isWhiteSpace (last uri)"
  proof (cases "quoteEscapes enc = []")
    case True
    then show ?thesis by (simp add: uri DATA_PREFIX_def js_def isWhiteSpace_def)
  next
    case False
    then have "last uri \<in> set (quoteEscapes enc)" by (simp add: uri)
    then show ?thesis by (rule escaped_no_whitespace [OF enc])
  qed
  have t: "trim uri = uri" using ne h l by (rule trim_id)
  have nl: "\<not> startsWith uri (js ''<link'')"
    by (simp add: uri DATA_PREFIX_def js_def startsWith_def)
  have sw: "startsWith uri DATA_PREFIX" by (simp add: uri startsWith_def)
  have rf: "replaceFirst DATA_PREFIX [] uri = quoteEscapes enc"
    unfolding uri by (rule replaceFirst_prefix) (simp add: DATA_PREFIX_def js_def)
  have dec: "decodeURIComponent (quoteEscapes enc) = Inr c"
    using enc by (rule decode_escaped)
  from assms(1) have "removeLineBreaks c = c"
    by (simp add: canonical_def removeLineBreaks_filter)
  moreover from assms(1) have "collapseWhitespace c = c"
    by (simp add: canonical_def collapseWhitespace_runs collapseRuns_singleSpaced)
  ultimately have clean: "collapseWhitespace (removeLineBreaks c) = c" by simp
  show ?thesis
    using ne nl sw
    by (simp add: normalize_input_def processInput_def t fromDataUri_def rf dec generate_def
        clean assms(2) Let_def)
qed

theorem data_uri_round_trip_witness:
  "canonical (js ''<svg width='' @ [APOS] @ js ''1'' @ [APOS] @ js ''> </svg>'') \<and>
   encodeAsDataUri (js ''<svg width='' @ [APOS] @ js ''1'' @ [APOS] @ js ''> </svg>'') =
     Inr (js ''data:image/svg+xml,%3Csvg%20width%3D%271%27%3E%20%3C%2Fsvg%3E'') \<and>
   normalize_input (js ''data:image/svg+xml,%3Csvg%20width%3D%271%27%3E%20%3C%2Fsvg%3E'') =
     Inr (Result (js ''<svg width='' @ [APOS] @ js ''1'' @ [APOS] @ js ''> </svg>'')
            (js ''data:image/svg+xml,%3Csvg%20width%3D%271%27%3E%20%3C%2Fsvg%3E'')
            (linkTag (js ''data:image/svg+xml,%3Csvg%20width%3D%271%27%3E%20%3C%2Fsvg%3E'')))"
proof -
  let ?c = "js ''<svg width='' @ [APOS] @ js ''1'' @ [APOS] @ js ''> </svg>''"
  let ?u = "js ''data:image/svg+xml,%3Csvg%20width%3D%271%27%3E%20%3C%2Fsvg%3E''"
  have a: "canonical ?c"
    by (simp add: canonical_def trim_def js_def APOS_def isWhiteSpace_def isLineBreak_def
        CR_def LF_def SPACE_def)
  have b: "encodeAsDataUri ?c = Inr ?u"
    by (simp add: encodeAsDataUri_def js_def DATA_PREFIX_def PERCENT_def SPACE_def DQUOTE_def
        APOS_def uriUnreserved_def isHighSurrogate_def isLowSurrogate_def pctEncode_def
        pctOctet_def utf8Encode_def hexDigit_def replaceAllChar_def quoteEscapes_def)
  show ?thesis
    using a b data_uri_round_trip [OF a b] by simp
qed

subsection \<open>Empty input\<close>

text \<open>
  C8. An input that is empty after trimming gives the Empty outcome, not an error, and
  \<open>processInput\<close> clears both outputs.
\<close>

theorem normalize_empty:
  "trim (svgInput e) = [] \<Longrightarrow>
     processInput e = (e\<lparr>outputCode := [], previewImg := []\<rparr>, Inr Empty) \<and>
     normalize_input (svgInput e) = Inr Empty"
  by (simp add: normalize_input_def processInput_def)

theorem normalize_empty_witness:
  "trim (svgInput (blank\<lparr>svgInput := js ''   ''\<rparr>)) = [] \<and>
   normalize_input (js ''   '') = Inr Empty \<and>
   trim (svgInput blank) = [] \<and> normalize_input [] = Inr Empty"
proof -
  have a: "trim (svgInput (blank\<lparr>svgInput := js ''   ''\<rparr>)) = []"
    by (simp add: trim_def js_def isWhiteSpace_def)
  have b: "trim (svgInput blank) = []"
    by (simp add: trim_def blank_def)
  show ?thesis
    using a b normalize_empty [OF a] normalize_empty [OF b] by (simp add: blank_def)
qed

subsection \<open>Malformed escapes\<close>

text \<open>
  C10. The claim is that \<open>processInput\<close> never throws. It does: on a data URI whose
  remainder is a lone percent sign, \<open>decodeURIComponent\<close> throws URIError, and nothing in
  \<open>processInput\<close> catches it.
\<close>

theorem normalize_malformed_escape:
  "normalize_input (js ''data:image/svg+xml,%'') = Inl URIError"
  by (simp add: normalize_input_def processInput_def fromDataUri_def blank_def trim_def
      isWhiteSpace_def js_def startsWith_def DATA_PREFIX_def PERCENT_def)

section \<open>Properties of the history store\<close>

subsection \<open>Numbers and strings in JSON text\<close>

lemma unat_digitChar: "d < 10 \<Longrightarrow> unat (digitChar d) = 48 + d"
proof -
  assume "d < 10"
  then have "48 + d < 65536" by simp
  from unat_of_nat16 [OF this] show ?thesis by (simp only: digitChar_def)
qed

lemma isDigit_unat: "isDigit c \<longleftrightarrow> 48 \<le> unat c \<and> unat c \<le> 57"
  by (simp add: isDigit_def word_le_nat_alt)

lemma isDigit_digitChar: "d < 10 \<Longrightarrow> isDigit (digitChar d)"
  by (simp add: isDigit_unat unat_digitChar)

lemma digits_isDigit: "c \<in> set (digits n) \<Longrightarrow> isDigit c"
proof (induction n arbitrary: c rule: digits.induct)
  case (1 n)
  show ?case
  proof (cases "n < 10")
    case True
    with "1.prems" show ?thesis by (simp add: digits.simps [of n] isDigit_digitChar)
  next
    case False
    with "1.prems" have "c \<in> set (digits (n div 10)) \<or> c = digitChar (n mod 10)"
      by (auto simp: digits.simps [of n])
    with "1.IH" [OF False] show ?thesis by (auto simp: isDigit_digitChar)
  qed
qed

lemma digits_not_Nil: "digits n \<noteq> []"
  by (simp add: digits.simps [of n])

lemma decimalValue_snoc: "decimalValue (ds @ [c]) = 10 * decimalValue ds + (unat c - 48)"
  by (simp add: decimalValue_def)

lemma decimalValue_digits: "decimalValue (digits n) = n"
proof (induction n rule: digits.induct)
  case (1 n)
  show ?case
  proof (cases "n < 10")
    case True
    then show ?thesis
      by (simp add: digits.simps [of n] decimalValue_def unat_digitChar)
  next
    case False
    have "decimalValue (digits n) = 10 * decimalValue (digits (n div 10)) + (unat (digitChar (n mod 10)) - 48)"
      using False by (simp add: digits.simps [of n] decimalValue_snoc)
    also have "\<dots> = 10 * (n div 10) + n mod 10"
      using "1.IH" [OF False] by (simp add: unat_digitChar)
    finally show ?thesis by simp
  qed
qed

lemma hd_digits_zero: "hd (digits n) = 0x30 \<Longrightarrow> n = 0"
proof (induction n rule: digits.induct)
  case (1 n)
  show ?case
  proof (cases "n < 10")
    case True
    with "1.prems" have "digitChar n = 0x30" by (simp add: digits.simps [of n])
    then have "unat (digitChar n) = 48" by simp
    with True show ?thesis by (simp add: unat_digitChar)
  next
    case False
    with "1.prems" have "hd (digits (n div 10)) = 0x30"
      by (simp add: digits.simps [of n] digits_not_Nil)
    with "1.IH" [OF False] have "n div 10 = 0" by simp
    with False show ?thesis by simp
  qed
qed

lemma digits_zero: "digits 0 = [0x30]"
  by (simp add: digits.simps [of 0] digitChar_def)

lemma length_digits_leading_zero: "hd (digits n) = 0x30 \<Longrightarrow> length (digits n) = 1"
  using hd_digits_zero [of n] by (auto simp: digits_zero)

lemma scanNumber_digits:
  assumes "\<not> isDigit c" "c \<noteq> 0x2E" "c \<noteq> 0x65" "c \<noteq> 0x45"
  shows "scanNumber (digits n @ c # r) = Some (JNumber (int n), c # r)"
proof -
  have d: "\<forall>x \<in> set (digits n). isDigit x" by (simp add: digits_isDigit)
  then have tw: "takeWhile isDigit (digits n @ c # r) = digits n"
    using assms(1) by (simp add: takeWhile_tail)
  from d have dw: "dropWhile isDigit (digits n @ c # r) = c # r"
    using assms(1) by (simp add: dropWhile_append3)
  have "isDigit (hd (digits n))" using d digits_not_Nil [of n] by simp
  then have nm: "hd (digits n) \<noteq> MINUS" by (auto simp: isDigit_unat MINUS_def)
  have lz: "\<not> (hd (digits n) = 0x30 \<and> 1 < length (digits n))"
    using length_digits_leading_zero [of n] by auto
  show ?thesis
    using assms nm lz
    by (simp add: scanNumber_def Let_def digits_not_Nil tw dw scanFraction_def scanExponent_def
        decimalValue_digits)
qed

lemma scanNumber_intText:
  assumes "\<not> isDigit c" "c \<noteq> 0x2E" "c \<noteq> 0x65" "c \<noteq> 0x45"
  shows "scanNumber (intText n @ c # r) = Some (JNumber n, c # r)"
proof (cases "n < 0")
  case False
  then show ?thesis using scanNumber_digits [OF assms, of "nat n" r] by (simp add: intText_def)
next
  case True
  let ?m = "nat (- n)"
  have d: "\<forall>x \<in> set (digits ?m). isDigit x" by (simp add: digits_isDigit)
  then have tw: "takeWhile isDigit (digits ?m @ c # r) = digits ?m"
    using assms(1) by (simp add: takeWhile_tail)
  from d have dw: "dropWhile isDigit (digits ?m @ c # r) = c # r"
    using assms(1) by (simp add: dropWhile_append3)
  have lz: "\<not> (hd (digits ?m) = 0x30 \<and> 1 < length (digits ?m))"
    using length_digits_leading_zero [of ?m] by auto
  show ?thesis
    using assms True lz
    by (simp add: intText_def scanNumber_def Let_def digits_not_Nil tw dw scanFraction_def
        scanExponent_def decimalValue_digits)
qed

lemma unat_hexLower:
  assumes "n < 16"
  shows "unat (hexLower n) = (if n < 10 then 48 + n else 87 + n)"
proof (cases "n < 10")
  case True
  then have "48 + n < 65536" by simp
  from unat_of_nat16 [OF this] True show ?thesis
    by (simp only: hexLower_def if_True)
next
  case False
  from assms have "87 + n < 65536" by simp
  from unat_of_nat16 [OF this] False show ?thesis
    by (simp only: hexLower_def if_False)
qed

lemma hexValue_hexLower: "n < 16 \<Longrightarrow> hexValue (hexLower n) = Some n"
  by (simp add: hexValue_unat unat_hexLower)

lemma lin16:
  "u = 16 * q + d \<Longrightarrow> q = 16 * r + c \<Longrightarrow> r = 16 * a + b \<Longrightarrow>
     ((a * 16 + b) * 16 + c) * 16 + d = u" for u :: nat
  by simp

lemma split16:
  "((u div 4096 * 16 + u div 256 mod 16) * 16 + u div 16 mod 16) * 16 + u mod 16 = u"
  for u :: nat
proof -
  have a: "u div 4096 = u div 16 div 16 div 16" and b: "u div 256 = u div 16 div 16"
    by (simp_all add: div_mult2_eq [symmetric])
  show ?thesis
    unfolding a b
    by (rule lin16 [where q = "u div 16" and r = "u div 16 div 16"]) simp_all
qed

lemma hex4Value_unicodeEscape:
  "hex4Value (hexLower (unat c div 4096)) (hexLower (unat c div 256 mod 16))
     (hexLower (unat c div 16 mod 16)) (hexLower (unat c mod 16)) = Some c"
proof -
  have "unat c < 65536" using unsigned_less [of c, where 'a = nat] by simp
  then have "unat c div 4096 < 16" by (simp add: div_less_iff_less_mult)
  then have a: "hexValue (hexLower (unat c div 4096)) = Some (unat c div 4096)"
    by (rule hexValue_hexLower)
  have b: "hexValue (hexLower (unat c div 256 mod 16)) = Some (unat c div 256 mod 16)"
    and c: "hexValue (hexLower (unat c div 16 mod 16)) = Some (unat c div 16 mod 16)"
    and d: "hexValue (hexLower (unat c mod 16)) = Some (unat c mod 16)"
    by (simp_all add: hexValue_hexLower)
  show ?thesis
    unfolding hex4Value_def a b c d by (simp only: prod.case option.case split16) simp
qed

lemma scanString_plain:
  "\<not> c < 0x20 \<Longrightarrow> c \<noteq> DQUOTE \<Longrightarrow> c \<noteq> BACKSLASH \<Longrightarrow>
     scanString (c # t) = map_option (apfst ((#) c)) (scanString t)"
  by simp

lemma scanString_unicodeEscape:
  "scanString (unicodeEscape c @ t) = map_option (apfst ((#) c)) (scanString t)"
  by (simp add: unicodeEscape_def hex4Value_unicodeEscape BACKSLASH_def DQUOTE_def)

lemma scanString_escapeUnit:
  "scanString (escapeUnit c @ t) = map_option (apfst ((#) c)) (scanString t)"
proof -
  consider "c = 0x08" | "c = 0x09" | "c = 0x0A" | "c = 0x0C" | "c = 0x0D" | "c = DQUOTE"
    | "c = BACKSLASH"
    | (uni) "c \<notin> {0x08, 0x09, 0x0A, 0x0C, 0x0D, DQUOTE, BACKSLASH}"
        "c < 0x20 \<or> isHighSurrogate c \<or> isLowSurrogate c"
    | (plain) "c \<notin> {0x08, 0x09, 0x0A, 0x0C, 0x0D, DQUOTE, BACKSLASH}"
        "\<not> (c < 0x20 \<or> isHighSurrogate c \<or> isLowSurrogate c)"
    by blast
  then show ?thesis
  proof cases
    case uni
    then have "escapeUnit c = unicodeEscape c" by (simp add: escapeUnit_def)
    then show ?thesis by (simp only: scanString_unicodeEscape)
  next
    case plain
    then have "escapeUnit c = [c]" by (simp add: escapeUnit_def)
    with plain show ?thesis by simp
  qed (simp_all add: escapeUnit_def simpleEscape_def BACKSLASH_def DQUOTE_def)
qed

lemma surrogate_plain:
  "isHighSurrogate c \<or> isLowSurrogate c \<Longrightarrow> \<not> c < 0x20 \<and> c \<noteq> DQUOTE \<and> c \<noteq> BACKSLASH"
  by (auto simp: isHighSurrogate_def isLowSurrogate_def DQUOTE_def BACKSLASH_def
      word_le_nat_alt word_less_nat_alt)

lemma scanString_escapeJSON:
  "scanString (escapeJSON s @ DQUOTE # rest) = Some (s, rest)"
proof (induction s rule: escapeJSON.induct)
  case 1
  show ?case by simp
next
  case (2 c)
  show ?case by (simp add: scanString_escapeUnit)
next
  case (3 c d ds)
  show ?case
  proof (cases "isHighSurrogate c \<and> isLowSurrogate d")
    case True
    with surrogate_plain [of c] surrogate_plain [of d] "3.IH"(1) show ?thesis by simp
  next
    case False
    then have "escapeJSON (c # d # ds) = escapeUnit c @ escapeJSON (d # ds)" by auto
    then have "scanString (escapeJSON (c # d # ds) @ DQUOTE # rest) =
        scanString (escapeUnit c @ (escapeJSON (d # ds) @ DQUOTE # rest))"
      by (simp only: append_assoc)
    also have "\<dots> = map_option (apfst ((#) c)) (scanString (escapeJSON (d # ds) @ DQUOTE # rest))"
      by (rule scanString_escapeUnit)
    also have "\<dots> = Some (c # d # ds, rest)"
      by (simp only: "3.IH"(2) [OF False]) simp
    finally show ?thesis .
  qed
qed

subsection \<open>Parsing a stored history\<close>

lemma tokenize_punct:
  "tokenize (0x5B # cs) = map_option ((#) LBracket) (tokenize cs)"
  "tokenize (0x5D # cs) = map_option ((#) RBracket) (tokenize cs)"
  "tokenize (0x7B # cs) = map_option ((#) LBrace) (tokenize cs)"
  "tokenize (0x7D # cs) = map_option ((#) RBrace) (tokenize cs)"
  "tokenize (0x3A # cs) = map_option ((#) Colon) (tokenize cs)"
  "tokenize (0x2C # cs) = map_option ((#) Comma) (tokenize cs)"
  by (simp_all add: isJsonSpace_def)

lemma tokenize_string:
  "tokenize (quoteJSONString s @ rest) = map_option ((#) (Scalar (JString s))) (tokenize rest)"
proof -
  have "quoteJSONString s @ rest = DQUOTE # (escapeJSON s @ DQUOTE # rest)"
    by (simp add: quoteJSONString_def)
  moreover have "tokenize (DQUOTE # (escapeJSON s @ DQUOTE # rest)) =
      map_option ((#) (Scalar (JString s))) (tokenize rest)"
    by (simp add: scanString_escapeJSON) (simp add: isJsonSpace_def DQUOTE_def)
  ultimately show ?thesis by simp
qed

lemma number_start:
  assumes "c = MINUS \<or> isDigit c"
  shows "\<not> isJsonSpace c" "c \<noteq> 0x5B" "c \<noteq> 0x5D" "c \<noteq> 0x7B" "c \<noteq> 0x7D" "c \<noteq> 0x3A"
    "c \<noteq> 0x2C" "c \<noteq> DQUOTE"
  using assms
  by (auto simp: isJsonSpace_def MINUS_def DQUOTE_def isDigit_unat)

lemma intText_start: "\<exists>c cs. intText n = c # cs \<and> (c = MINUS \<or> isDigit c)"
proof (cases "n < 0")
  case True
  then show ?thesis by (simp add: intText_def)
next
  case False
  obtain c cs where d: "digits (nat n) = c # cs"
    using digits_not_Nil [of "nat n"] by (cases "digits (nat n)") auto
  then have "isDigit c" using digits_isDigit [of c "nat n"] by simp
  with d False show ?thesis by (simp add: intText_def)
qed

lemma tokenize_int:
  "tokenize (intText n @ 0x2C # r) =
     map_option ((#) (Scalar (JNumber n))) (tokenize (0x2C # r))"
proof -
  obtain c cs where i: "intText n = c # cs" and c: "c = MINUS \<or> isDigit c"
    using intText_start by blast
  have comma: "\<not> isDigit 0x2C" by (simp add: isDigit_def)
  have "scanNumber (intText n @ 0x2C # r) = Some (JNumber n, 0x2C # r)"
    by (rule scanNumber_intText) (simp_all add: comma)
  then have sn: "scanNumber (c # (cs @ 0x2C # r)) = Some (JNumber n, 0x2C # r)"
    by (simp add: i)
  have "tokenize (c # (cs @ 0x2C # r)) =
      map_option ((#) (Scalar (JNumber n))) (tokenize (0x2C # r))"
    using c number_start [OF c]
    by (subst tokenize.simps(2)) (simp only: sn if_False if_True option.case prod.case)
  then show ?thesis by (simp add: i)
qed

lemma stringify_item:
  "JSON_stringify (itemJson x) =
     0x7B # (quoteJSONString (js ''id'') @ 0x3A # (intText (id' x) @ 0x2C #
     (quoteJSONString (js ''svg'') @ 0x3A # (quoteJSONString (svg x) @ 0x2C #
     (quoteJSONString (js ''code'') @ 0x3A # (quoteJSONString (code x) @ 0x2C #
     (quoteJSONString (js ''date'') @ 0x3A # (quoteJSONString (date x) @ [0x7D]))))))))"
  by (simp add: itemJson_def) (simp add: js_def)

lemma tokenize_item:
  "tokenize (JSON_stringify (itemJson x) @ rest) =
     map_option ((@) (itemTokens x)) (tokenize rest)"
  by (simp only: stringify_item append_Cons append_assoc append_Nil tokenize_punct
      tokenize_string tokenize_int option.map_comp)
    (cases "tokenize rest"; simp add: itemTokens_def comp_def)

lemma stringifyElements_map: "stringifyElements vs = map JSON_stringify vs"
  by (induction vs) simp_all

lemma joinWith_Cons: "joinWith sep (a # as) = a @ concat (map ((@) sep) as)"
  by (induction as arbitrary: a) simp_all

lemma tokenize_tail:
  "tokenize (concat (map (\<lambda>x. 0x2C # JSON_stringify (itemJson x)) xs) @ [0x5D]) =
     Some (concat (map (\<lambda>x. Comma # itemTokens x) xs) @ [RBracket])"
  by (induction xs) (simp_all add: tokenize_punct tokenize_item isJsonSpace_def)

lemma stringify_history:
  "JSON_stringify (historyJson h) =
     0x5B # (case h of
               [] \<Rightarrow> [0x5D]
             | x # xs \<Rightarrow>
                 JSON_stringify (itemJson x) @
                 (concat (map (\<lambda>x. 0x2C # JSON_stringify (itemJson x)) xs) @ [0x5D]))"
  by (cases h) (simp_all add: historyJson_def stringifyElements_map joinWith_Cons js_def comp_def)

lemma tokenize_history:
  "tokenize (JSON_stringify (historyJson h)) =
     Some (LBracket #
           (case h of
              [] \<Rightarrow> [RBracket]
            | x # xs \<Rightarrow> itemTokens x @ concat (map (\<lambda>x. Comma # itemTokens x) xs) @ [RBracket]))"
  by (cases h)
    (simp_all add: stringify_history tokenize_punct tokenize_item tokenize_tail isJsonSpace_def)

lemma key_facts:
  "\<not> isArrayIndex (js ''id'')" "\<not> isArrayIndex (js ''svg'')"
  "\<not> isArrayIndex (js ''code'')" "\<not> isArrayIndex (js ''date'')"
  by (simp_all add: isArrayIndex_def js_def isDigit_def)

lemma parse_item:
  assumes "st = PValue \<or> st = PFirstElement"
  shows "parseTokens st (InArray acc # fs) (itemTokens x @ ts) =
           parseTokens PAfter (InArray (itemJson x # acc) # fs) ts"
proof -
  have "parseTokens st (InArray acc # fs) (itemTokens x @ ts) =
        parseTokens PFirstKey (InObject [] None # InArray acc # fs) (tl (itemTokens x) @ ts)"
    using assms by (auto simp: itemTokens_def transition_def startValue_def)
  also have "\<dots> = parseTokens PAfter (InArray (itemJson x # acc) # fs) ts"
    by (simp add: itemTokens_def transition_def startValue_def readKey_def complete_def
        defineProperty_def key_facts itemJson_def)
      (simp add: js_def)
  finally show ?thesis .
qed

lemma parse_tail:
  "parseTokens PAfter [InArray acc] (concat (map (\<lambda>x. Comma # itemTokens x) xs) @ [RBracket]) =
     Some (JArray (rev acc @ map itemJson xs))"
proof (induction xs arbitrary: acc)
  case Nil
  show ?case by (simp add: transition_def complete_def)
next
  case (Cons x xs)
  have "parseTokens PAfter [InArray acc]
          (concat (map (\<lambda>x. Comma # itemTokens x) (x # xs)) @ [RBracket]) =
        parseTokens PValue [InArray acc]
          (itemTokens x @ (concat (map (\<lambda>x. Comma # itemTokens x) xs) @ [RBracket]))"
    by (simp add: transition_def)
  also have "\<dots> = parseTokens PAfter [InArray (itemJson x # acc)]
          (concat (map (\<lambda>x. Comma # itemTokens x) xs) @ [RBracket])"
    by (rule parse_item) simp
  also have "\<dots> = Some (JArray (rev (itemJson x # acc) @ map itemJson xs))"
    by (rule Cons.IH)
  finally show ?case by simp
qed

lemma parse_history: "JSON_parse (JSON_stringify (historyJson h)) = Inr (historyJson h)"
proof (cases h)
  case Nil
  show ?thesis
    unfolding JSON_parse_def tokenize_history
    by (simp add: Nil transition_def startValue_def complete_def historyJson_def)
next
  case (Cons x xs)
  have "parseTokens PValue [] (LBracket # itemTokens x @
          concat (map (\<lambda>x. Comma # itemTokens x) xs) @ [RBracket]) =
        parseTokens PFirstElement [InArray []] (itemTokens x @
          (concat (map (\<lambda>x. Comma # itemTokens x) xs) @ [RBracket]))"
    by (simp add: transition_def startValue_def)
  also have "\<dots> = parseTokens PAfter [InArray [itemJson x]]
          (concat (map (\<lambda>x. Comma # itemTokens x) xs) @ [RBracket])"
    by (rule parse_item) simp
  also have "\<dots> = Some (JArray (rev [itemJson x] @ map itemJson xs))"
    by (rule parse_tail)
  finally show ?thesis
    unfolding JSON_parse_def tokenize_history
    by (simp add: Cons historyJson_def)
qed

lemma stringify_history_not_Nil: "JSON_stringify (historyJson h) \<noteq> []"
  by (simp add: stringify_history)

lemma getHistory_stored:
  "getHistory (Some (JSON_stringify (historyJson h))) = Inr (historyJson h)"
  by (simp add: getHistory_def orElse_def stringify_history_not_Nil parse_history)

lemma headIsDuplicate_history:
  "headIsDuplicate (map itemJson h) s = Inr (h \<noteq> [] \<and> svg (hd h) = s)"
proof (cases h)
  case Nil
  then show ?thesis by (simp add: headIsDuplicate_def)
next
  case (Cons x xs)
  have "map_of [(js ''id'', JNumber (id' x)), (js ''svg'', JString (svg x)),
                (js ''code'', JString (code x)), (js ''date'', JString (date x))] (js ''svg'') =
        Some (JString (svg x))"
    by (simp add: js_def)
  then show ?thesis by (simp add: Cons headIsDuplicate_def itemJson_def)
qed

lemma saveHistory_loaded:
  assumes "getHistory item = Inr (historyJson h)"
  shows "saveHistory now t e item =
     (if trim (svgInput e) = [] \<or> (h \<noteq> [] \<and> svg (hd h) = trim (svgInput e)) then Inr item
      else Inr (Some (JSON_stringify (historyJson (pushed (newEntry now t e) h)))))"
proof -
  have "map itemJson (pushed (newEntry now t e) h) =
        (if 50 < length (itemJson (newEntry now t e) # map itemJson h)
         then butlast (itemJson (newEntry now t e) # map itemJson h)
         else itemJson (newEntry now t e) # map itemJson h)"
    by (simp add: pushed_def map_butlast)
  then show ?thesis
    using assms
    by (simp add: saveHistory_def historyJson_def headIsDuplicate_history Let_def
        newEntry_def)
qed

lemma pushed_head: "pushed x h \<noteq> [] \<and> hd (pushed x h) = x"
  by (cases h) (auto simp: pushed_def)

lemmas json_eval =
  JSON_parse_def js_def isJsonSpace_def DQUOTE_def BACKSLASH_def MINUS_def isDigit_def
  startsWith_def scanNumber_def scanFraction_def scanExponent_def decimalValue_def
  transition_def startValue_def readKey_def complete_def defineProperty_def isArrayIndex_def
  simpleEscape_def hex4Value_def hexValue_def Let_def

lemma parse_empty_array: "JSON_parse (js ''[]'') = Inr (JArray [])"
  by (simp add: json_eval)

lemma getHistory_None: "getHistory None = Inr (historyJson [])"
  by (simp add: getHistory_def orElse_def parse_empty_array historyJson_def)

subsection \<open>Loading\<close>

text \<open>
  C6. \<open>getHistory\<close> returns a value for every stored item, absent or any text; when the
  parse throws, and when nothing is stored, the value is the empty array.
\<close>

theorem getHistory_total:
  "(\<exists>v. getHistory item = Inr v) \<and>
   (JSON_parse (orElse item (js ''[]'')) = Inl e \<longrightarrow> getHistory item = Inr (JArray [])) \<and>
   getHistory None = Inr (JArray [])"
proof (intro conjI impI)
  show "\<exists>v. getHistory item = Inr v"
    by (simp add: getHistory_def split: sum.splits)
  show "getHistory item = Inr (JArray [])" if "JSON_parse (orElse item (js ''[]'')) = Inl e"
    using that by (simp add: getHistory_def)
  show "getHistory None = Inr (JArray [])"
    by (simp add: getHistory_def orElse_def parse_empty_array)
qed

theorem getHistory_total_witness:
  "JSON_parse (orElse (Some (js ''{oops'')) (js ''[]'')) = Inl SyntaxError \<and>
   getHistory (Some (js ''{oops'')) = Inr (JArray [])"
proof -
  have a: "JSON_parse (orElse (Some (js ''{oops'')) (js ''[]'')) = Inl SyntaxError"
    by (simp add: orElse_def json_eval)
  from a getHistory_total [of "Some (js ''{oops'')" SyntaxError] show ?thesis by simp
qed

subsection \<open>Consecutive duplicates\<close>

text \<open>
  The variant of the page that tests for duplicates, on a store that loads as a history:
  when the head entry's svg is the incoming svg (the trimmed text of the input, which is
  what would be stored), \<open>saveHistory\<close> leaves the store as it is; and whatever a first
  call does, a second call with the same input leaves the store exactly as the first call
  left it.
\<close>

lemma saveHistory_suppresses_duplicate:
  assumes "getHistory item = Inr (historyJson h)"
  shows "(h \<noteq> [] \<and> svg (hd h) = trim (svgInput e) \<longrightarrow> saveHistory now t e item = Inr item) \<and>
         (\<exists>item1 h1. saveHistory now t e item = Inr item1 \<and>
            getHistory item1 = Inr (historyJson h1) \<and>
            saveHistory now' t' e item1 = Inr item1)"
proof (cases "trim (svgInput e) = [] \<or> (h \<noteq> [] \<and> svg (hd h) = trim (svgInput e))")
  case True
  then have "saveHistory now t e item = Inr item" "saveHistory now' t' e item = Inr item"
    by (simp_all add: saveHistory_loaded [OF assms])
  with assms show ?thesis by auto
next
  case False
  let ?h1 = "pushed (newEntry now t e) h"
  let ?item1 = "Some (JSON_stringify (historyJson ?h1))"
  from False have first: "saveHistory now t e item = Inr ?item1"
    by (auto simp: saveHistory_loaded [OF assms])
  have loaded: "getHistory ?item1 = Inr (historyJson ?h1)" by (rule getHistory_stored)
  have "?h1 \<noteq> [] \<and> svg (hd ?h1) = trim (svgInput e)"
    using pushed_head [of "newEntry now t e" h] by (simp add: newEntry_def)
  then have "saveHistory now' t' e ?item1 = Inr ?item1"
    by (simp add: saveHistory_loaded [OF loaded])
  with first loaded False show ?thesis by auto
qed

text \<open>
  A stored object with a \<open>length\<close> and an element \<open>0\<close> passes the same test: the variant
  that tests for duplicates returns without a write when the svg at \<open>0\<close> is the incoming
  one, and throws at \<open>unshift\<close> otherwise, as \<open>src/main.ts\<close> always does.
\<close>

lemma saveHistory_arrayLike:
  "getHistory (Some arrayLikeStore) =
     Inr (JObject [(js ''0'', JObject [(js ''svg'', JString (js ''<svg/>''))]),
                   (js ''length'', JNumber 1)]) \<and>
   saveHistory 9 (js ''later'') (blank\<lparr>svgInput := js ''<svg/>''\<rparr>) (Some arrayLikeStore) =
     Inr (Some arrayLikeStore) \<and>
   saveHistory 9 (js ''later'') (blank\<lparr>svgInput := js ''<svg></svg>''\<rparr>) (Some arrayLikeStore) =
     Inl TypeError \<and>
   saveHistory_main 9 (js ''later'') (blank\<lparr>svgInput := js ''<svg/>''\<rparr>) (Some arrayLikeStore) =
     Inl TypeError"
proof -
  have g: "getHistory (Some arrayLikeStore) =
     Inr (JObject [(js ''0'', JObject [(js ''svg'', JString (js ''<svg/>''))]),
                   (js ''length'', JNumber 1)])"
    by (simp add: getHistory_def orElse_def arrayLikeStore_def json_eval)
  have t: "trim (svgInput (blank\<lparr>svgInput := js ''<svg/>''\<rparr>)) = js ''<svg/>''"
    "trim (svgInput (blank\<lparr>svgInput := js ''<svg></svg>''\<rparr>)) = js ''<svg></svg>''"
    by (simp_all add: trim_def js_def isWhiteSpace_def)
  have d: "objectIsDuplicate [(js ''0'', JObject [(js ''svg'', JString (js ''<svg/>''))]),
                   (js ''length'', JNumber 1)] (js ''<svg/>'')"
    "\<not> objectIsDuplicate [(js ''0'', JObject [(js ''svg'', JString (js ''<svg/>''))]),
                   (js ''length'', JNumber 1)] (js ''<svg></svg>'')"
    by (simp_all add: objectIsDuplicate_def js_def)
  have n: "js ''<svg/>'' \<noteq> []" "js ''<svg></svg>'' \<noteq> []" by (simp_all add: js_def)
  show ?thesis
    unfolding saveHistory_def saveHistory_main_def Let_def t g using d n by simp
qed

text \<open>\<open>src/main.ts\<close> records every non-empty input on a store that loads as a history.\<close>

lemma saveHistory_main_loaded:
  assumes "getHistory item = Inr (historyJson h)"
  shows "saveHistory_main now t e item =
     (if trim (svgInput e) = [] then Inr item
      else Inr (Some (JSON_stringify (historyJson (pushed (newEntry now t e) h)))))"
proof -
  have "map itemJson (pushed (newEntry now t e) h) =
        (if 50 < length (itemJson (newEntry now t e) # map itemJson h)
         then butlast (itemJson (newEntry now t e) # map itemJson h)
         else itemJson (newEntry now t e) # map itemJson h)"
    by (simp add: pushed_def map_butlast)
  then show ?thesis
    using assms
    by (simp add: saveHistory_main_def historyJson_def Let_def newEntry_def)
qed

text \<open>
  C3 does not hold of \<open>saveHistory\<close> in \<open>src/main.ts\<close>, which has no test for duplicates: two
  calls in sequence with the same input \<open><svg/>\<close> (surrounded by spaces) on an empty store
  leave two entries, where the variant that tests for duplicates leaves the store of the
  first call as it is.
\<close>

theorem main_records_duplicate:
  "saveHistory_main 5 (js ''today'') (blank\<lparr>svgInput := js '' <svg/> ''\<rparr>) None =
     Inr (Some (JSON_stringify (historyJson
       [\<lparr>id' = 5, svg = js ''<svg/>'', code = [], date = js ''today''\<rparr>]))) \<and>
   saveHistory_main 9 (js ''later'') (blank\<lparr>svgInput := js '' <svg/> ''\<rparr>)
     (Some (JSON_stringify (historyJson
       [\<lparr>id' = 5, svg = js ''<svg/>'', code = [], date = js ''today''\<rparr>]))) =
     Inr (Some (JSON_stringify (historyJson
       [\<lparr>id' = 9, svg = js ''<svg/>'', code = [], date = js ''later''\<rparr>,
        \<lparr>id' = 5, svg = js ''<svg/>'', code = [], date = js ''today''\<rparr>]))) \<and>
   getHistory (Some (JSON_stringify (historyJson
       [\<lparr>id' = 9, svg = js ''<svg/>'', code = [], date = js ''later''\<rparr>,
        \<lparr>id' = 5, svg = js ''<svg/>'', code = [], date = js ''today''\<rparr>]))) =
     Inr (historyJson
       [\<lparr>id' = 9, svg = js ''<svg/>'', code = [], date = js ''later''\<rparr>,
        \<lparr>id' = 5, svg = js ''<svg/>'', code = [], date = js ''today''\<rparr>]) \<and>
   saveHistory 9 (js ''later'') (blank\<lparr>svgInput := js '' <svg/> ''\<rparr>)
     (Some (JSON_stringify (historyJson
       [\<lparr>id' = 5, svg = js ''<svg/>'', code = [], date = js ''today''\<rparr>]))) =
     Inr (Some (JSON_stringify (historyJson
       [\<lparr>id' = 5, svg = js ''<svg/>'', code = [], date = js ''today''\<rparr>])))"
proof -
  let ?e = "blank\<lparr>svgInput := js '' <svg/> ''\<rparr>"
  let ?x1 = "\<lparr>id' = 5, svg = js ''<svg/>'', code = [], date = js ''today''\<rparr>"
  let ?x2 = "\<lparr>id' = 9, svg = js ''<svg/>'', code = [], date = js ''later''\<rparr>"
  have n1: "newEntry 5 (js ''today'') ?e = ?x1" and n2: "newEntry 9 (js ''later'') ?e = ?x2"
    by (simp_all add: newEntry_def blank_def trim_def js_def isWhiteSpace_def)
  have t: "trim (svgInput ?e) = js ''<svg/>''"
    by (simp add: trim_def js_def isWhiteSpace_def)
  have first: "saveHistory_main 5 (js ''today'') ?e None =
      Inr (Some (JSON_stringify (historyJson [?x1])))"
    unfolding saveHistory_main_loaded [OF getHistory_None] n1 t
    by (simp add: pushed_def) (simp add: js_def)
  have second: "saveHistory_main 9 (js ''later'') ?e (Some (JSON_stringify (historyJson [?x1]))) =
      Inr (Some (JSON_stringify (historyJson [?x2, ?x1])))"
    unfolding saveHistory_main_loaded [OF getHistory_stored] n2 t
    by (simp add: pushed_def) (simp add: js_def)
  have tested: "saveHistory 9 (js ''later'') ?e (Some (JSON_stringify (historyJson [?x1]))) =
      Inr (Some (JSON_stringify (historyJson [?x1])))"
    unfolding saveHistory_loaded [OF getHistory_stored] t by simp
  from first second tested getHistory_stored [of "[?x2, ?x1]"] show ?thesis by simp
qed

subsection \<open>Export\<close>








lemma wellFormed_Cons:
  "\<not> isHighSurrogate c \<Longrightarrow> \<not> isLowSurrogate c \<Longrightarrow> isWellFormed s \<Longrightarrow> isWellFormed (c # s)"
  by simp

















subsection \<open>The bound of fifty entries\<close>

lemma pushed_take: "length h \<le> 50 \<Longrightarrow> pushed x h = take 50 (x # h)"
  by (cases "length h = 50") (simp_all add: pushed_def butlast_conv_take)

lemma take_append_take: "take n (xs @ take n ys) = take n (xs @ ys)"
  by (simp add: min_def)

lemma saveAll_fresh:
  assumes "getHistory item = Inr (historyJson h)" and "length h \<le> 50"
    and "\<forall>(now, t, e) \<in> set calls. trim (svgInput e) \<noteq> []"
    and "distinct (map (\<lambda>(now, t, e). trim (svgInput e)) calls)"
    and "\<forall>(now, t, e) \<in> set calls. trim (svgInput e) \<notin> svg ` set h"
  shows "\<exists>item'. saveAll calls item = Inr item' \<and>
           getHistory item' =
             Inr (historyJson (take 50 (rev (map (\<lambda>(now, t, e). newEntry now t e) calls) @ h)))"
  using assms
proof (induction calls arbitrary: item h)
  case Nil
  then show ?case by simp
next
  case (Cons c calls)
  obtain now t e where c: "c = (now, t, e)" by (cases c)
  let ?x = "newEntry now t e"
  let ?h1 = "take 50 (?x # h)"
  let ?item1 = "Some (JSON_stringify (historyJson ?h1))"
  from Cons.prems(3,5) c have ne: "trim (svgInput e) \<noteq> []"
    and fresh: "trim (svgInput e) \<notin> svg ` set h" by auto
  from fresh have nd: "\<not> (h \<noteq> [] \<and> svg (hd h) = trim (svgInput e))"
    by (cases h) auto
  have first: "saveHistory now t e item = Inr ?item1"
    using ne nd by (auto simp: saveHistory_loaded [OF Cons.prems(1)] pushed_take [OF Cons.prems(2)])
  have loaded: "getHistory ?item1 = Inr (historyJson ?h1)" by (rule getHistory_stored)
  have len: "length ?h1 \<le> 50" by simp
  have p3: "\<forall>(now, t, e) \<in> set calls. trim (svgInput e) \<noteq> []"
    using Cons.prems(3) by simp
  have p4: "distinct (map (\<lambda>(now, t, e). trim (svgInput e)) calls)"
    using Cons.prems(4) by simp
  have "set ?h1 \<subseteq> insert ?x (set h)" using set_take_subset [of 50 "?x # h"] by simp
  then have sub: "svg ` set ?h1 \<subseteq> insert (trim (svgInput e)) (svg ` set h)"
    by (auto simp: newEntry_def)
  have "trim (svgInput e') \<notin> svg ` set ?h1" if m: "(now', t', e') \<in> set calls" for now' t' e'
  proof
    assume i: "trim (svgInput e') \<in> svg ` set ?h1"
    from m Cons.prems(5) have a: "trim (svgInput e') \<notin> svg ` set h" by auto
    from m Cons.prems(4) c have b: "trim (svgInput e') \<noteq> trim (svgInput e)" by force
    from i sub a b show False by auto
  qed
  then have p5: "\<forall>(now', t', e') \<in> set calls. trim (svgInput e') \<notin> svg ` set ?h1"
    by auto
  from Cons.IH [OF loaded len p3 p4 p5] obtain item' where
    rest: "saveAll calls ?item1 = Inr item'" and
    res: "getHistory item' =
      Inr (historyJson (take 50 (rev (map (\<lambda>(now, t, e). newEntry now t e) calls) @ ?h1)))"
    by blast
  have "take 50 (rev (map (\<lambda>(now, t, e). newEntry now t e) calls) @ ?h1) =
        take 50 (rev (map (\<lambda>(now, t, e). newEntry now t e) (c # calls)) @ h)"
    by (simp only: take_append_take) (simp add: c)
  with rest res first show ?case by (simp add: c)
qed

lemma svg_newEntry: "svg (case c of (now, t, e) \<Rightarrow> newEntry now t e) = (case c of (now, t, e) \<Rightarrow> trim (svgInput e))"
  by (cases c) (simp add: newEntry_def)

lemma trim_replicate_a: "trim (replicate (Suc i) 0x61) = replicate (Suc i) 0x61"
proof (rule trim_id)
  show "replicate (Suc i) (0x61 :: jschar) \<noteq> []" by simp
  show "\<not> isWhiteSpace (hd (replicate (Suc i) 0x61))" by (simp add: isWhiteSpace_def)
  have "last (replicate (Suc i) (0x61 :: jschar)) = 0x61" by (rule last_replicate) simp
  then show "\<not> isWhiteSpace (last (replicate (Suc i) 0x61))"
    by (simp only:) (simp add: isWhiteSpace_def)
qed

lemma sampleCalls_svgs:
  "map (\<lambda>(now, t, e). trim (svgInput e)) sampleCalls = map (\<lambda>i. replicate (Suc i) 0x61) [0..<51]"
  unfolding sampleCalls_def by (simp add: comp_def trim_replicate_a del: replicate_Suc)

text \<open>
  C4. On a store that loads as a history of at most fifty entries, \<open>saveHistory\<close> leaves a
  store that loads as a history of at most fifty entries: the same one, or the first fifty
  of the new entry followed by the old ones. Fifty-one calls with distinct non-empty
  inputs, starting from an empty store, leave exactly fifty entries, the entry of the last
  call at the head and the entry of the first call gone.
\<close>

theorem history_bounded:
  "(getHistory item = Inr (historyJson h) \<and> length h \<le> 50 \<longrightarrow>
      (\<exists>item' h'. saveHistory now t e item = Inr item' \<and>
         getHistory item' = Inr (historyJson h') \<and> length h' \<le> 50 \<and>
         (h' = h \<or> h' = take 50 (newEntry now t e # h)))) \<and>
   (length calls = 51 \<and> (\<forall>(now, t, e) \<in> set calls. trim (svgInput e) \<noteq> []) \<and>
    distinct (map (\<lambda>(now, t, e). trim (svgInput e)) calls) \<longrightarrow>
      (\<exists>item' h'. saveAll calls None = Inr item' \<and>
         getHistory item' = Inr (historyJson h') \<and> length h' = 50 \<and>
         hd h' = (case last calls of (now, t, e) \<Rightarrow> newEntry now t e) \<and>
         (case hd calls of (now, t, e) \<Rightarrow> newEntry now t e) \<notin> set h'))"
proof (intro conjI impI)
  assume a: "getHistory item = Inr (historyJson h) \<and> length h \<le> 50"
  then have loaded: "getHistory item = Inr (historyJson h)" and len: "length h \<le> 50" by simp_all
  show "\<exists>item' h'. saveHistory now t e item = Inr item' \<and>
         getHistory item' = Inr (historyJson h') \<and> length h' \<le> 50 \<and>
         (h' = h \<or> h' = take 50 (newEntry now t e # h))"
  proof (cases "trim (svgInput e) = [] \<or> (h \<noteq> [] \<and> svg (hd h) = trim (svgInput e))")
    case True
    then have "saveHistory now t e item = Inr item"
      by (simp add: saveHistory_loaded [OF loaded])
    with loaded len show ?thesis by blast
  next
    case False
    let ?h1 = "take 50 (newEntry now t e # h)"
    from False have "saveHistory now t e item = Inr (Some (JSON_stringify (historyJson ?h1)))"
      by (auto simp: saveHistory_loaded [OF loaded] pushed_take [OF len])
    moreover have "getHistory (Some (JSON_stringify (historyJson ?h1))) = Inr (historyJson ?h1)"
      by (rule getHistory_stored)
    moreover have "length ?h1 \<le> 50" by simp
    ultimately show ?thesis by blast
  qed
next
  let ?f = "\<lambda>(now, t, e). newEntry now t e"
  assume b: "length calls = 51 \<and> (\<forall>(now, t, e) \<in> set calls. trim (svgInput e) \<noteq> []) \<and>
    distinct (map (\<lambda>(now, t, e). trim (svgInput e)) calls)"
  then obtain c cs where calls: "calls = c # cs" and lcs: "length cs = 50"
    by (cases calls) auto
  from b have ne: "\<forall>(now, t, e) \<in> set calls. trim (svgInput e) \<noteq> []"
    and di: "distinct (map (\<lambda>(now, t, e). trim (svgInput e)) calls)" by simp_all
  from saveAll_fresh [OF getHistory_None _ ne di] obtain item' where
    run: "saveAll calls None = Inr item'" and
    res: "getHistory item' = Inr (historyJson (take 50 (rev (map ?f calls) @ [])))"
    by auto
  let ?h' = "take 50 (rev (map ?f calls))"
  have shape: "?h' = rev (map ?f cs)" by (simp add: calls lcs)
  have l: "length ?h' = 50" by (simp add: calls lcs)
  have cne: "cs \<noteq> []" using lcs by auto
  have "hd ?h' = last (map ?f cs)" unfolding shape using cne by (simp add: hd_rev)
  also have "\<dots> = ?f (last cs)" using cne by (simp add: last_map)
  also have "last cs = last calls" using cne by (simp add: calls)
  finally have h: "hd ?h' = ?f (last calls)" .
  have "?f c \<notin> set ?h'"
  proof
    assume "?f c \<in> set ?h'"
    then have "?f c \<in> ?f ` set cs" by (simp add: shape)
    then obtain d where d: "d \<in> set cs" and eq: "?f c = ?f d" by auto
    from eq have "svg (?f c) = svg (?f d)" by simp
    then have "(case c of (now, t, e) \<Rightarrow> trim (svgInput e)) = (case d of (now, t, e) \<Rightarrow> trim (svgInput e))"
      by (simp only: svg_newEntry)
    with d di show False by (force simp: calls)
  qed
  then have e: "?f (hd calls) \<notin> set ?h'" by (simp add: calls)
  from run res l h e show "\<exists>item' h'. saveAll calls None = Inr item' \<and>
         getHistory item' = Inr (historyJson h') \<and> length h' = 50 \<and>
         hd h' = (case last calls of (now, t, e) \<Rightarrow> newEntry now t e) \<and>
         (case hd calls of (now, t, e) \<Rightarrow> newEntry now t e) \<notin> set h'"
    by (intro exI [of _ item'] exI [of _ ?h']) simp
qed

theorem history_bounded_witness:
  "(getHistory None = Inr (historyJson []) \<and> length ([] :: HistoryItem list) \<le> 50) \<and>
   (\<exists>item' h'. saveHistory 7 (js ''now'') (blank\<lparr>svgInput := js ''a''\<rparr>) None = Inr item' \<and>
      getHistory item' = Inr (historyJson h') \<and> length h' \<le> 50 \<and>
      (h' = [] \<or> h' = take 50 (newEntry 7 (js ''now'') (blank\<lparr>svgInput := js ''a''\<rparr>) # []))) \<and>
   (length sampleCalls = 51 \<and>
    list_all (\<lambda>(now, t, e). trim (svgInput e) \<noteq> []) sampleCalls \<and>
    distinct (map (\<lambda>(now, t, e). trim (svgInput e)) sampleCalls)) \<and>
   (\<exists>item' h'. saveAll sampleCalls None = Inr item' \<and>
      getHistory item' = Inr (historyJson h') \<and> length h' = 50 \<and>
      hd h' = (case last sampleCalls of (now, t, e) \<Rightarrow> newEntry now t e) \<and>
      (case hd sampleCalls of (now, t, e) \<Rightarrow> newEntry now t e) \<notin> set h')"
proof -
  have a: "getHistory None = Inr (historyJson []) \<and> length ([] :: HistoryItem list) \<le> 50"
    by (simp add: getHistory_None)
  have l: "length sampleCalls = 51" by (simp add: sampleCalls_def)
  have n: "\<forall>(now, t, e) \<in> set sampleCalls. trim (svgInput e) \<noteq> []"
    unfolding sampleCalls_def by (auto simp: trim_replicate_a simp del: replicate_Suc)
  have "inj_on (\<lambda>i. replicate (Suc i) (0x61 :: jschar)) (set [0..<51])"
  proof (rule inj_onI)
    fix i j :: nat
    assume "replicate (Suc i) (0x61 :: jschar) = replicate (Suc j) 0x61"
    then have "length (replicate (Suc i) (0x61 :: jschar)) = length (replicate (Suc j) (0x61 :: jschar))"
      by (simp only:)
    then show "i = j" by simp
  qed
  then have d: "distinct (map (\<lambda>(now, t, e). trim (svgInput e)) sampleCalls)"
    unfolding sampleCalls_svgs by (simp add: distinct_map)
  note t1 = history_bounded [of None "[]" 7 "js ''now''" "blank\<lparr>svgInput := js ''a''\<rparr>" sampleCalls]
  from n have n': "list_all (\<lambda>(now, t, e). trim (svgInput e) \<noteq> []) sampleCalls"
    by (simp add: list_all_iff)
  from t1 a l n n' d show ?thesis by simp
qed

subsection \<open>Entry ids\<close>

lemma pushed_twice: "\<exists>rest. pushed y (pushed x h) = y # x # rest"
proof -
  obtain r where r: "pushed x h = x # r"
    using pushed_head [of x h] by (cases "pushed x h") auto
  show ?thesis
  proof (cases r)
    case Nil
    with r show ?thesis by (simp add: pushed_def)
  next
    case (Cons a as)
    with r show ?thesis by (auto simp: pushed_def)
  qed
qed

text \<open>
  C9, as the code has it. The id of an entry is the clock reading \<open>Date.now()\<close> of the call
  that records it. Of two successive recording calls, the later entry's id is at least the
  earlier one's exactly when the clock did not go back between them, and the two ids
  differ exactly when the two readings differ.
\<close>

theorem entry_id_is_clock:
  assumes "getHistory item = Inr (historyJson h)"
    and "trim (svgInput e1) \<noteq> []" and "trim (svgInput e2) \<noteq> []"
    and "h = [] \<or> svg (hd h) \<noteq> trim (svgInput e1)"
    and "trim (svgInput e2) \<noteq> trim (svgInput e1)"
  shows "\<exists>item1 item2 rest.
           saveHistory now1 t1 e1 item = Inr item1 \<and>
           saveHistory now2 t2 e2 item1 = Inr item2 \<and>
           getHistory item2 =
             Inr (historyJson (newEntry now2 t2 e2 # newEntry now1 t1 e1 # rest)) \<and>
           id' (newEntry now1 t1 e1) = now1 \<and> id' (newEntry now2 t2 e2) = now2 \<and>
           (id' (newEntry now1 t1 e1) \<le> id' (newEntry now2 t2 e2) \<longleftrightarrow> now1 \<le> now2) \<and>
           (id' (newEntry now1 t1 e1) \<noteq> id' (newEntry now2 t2 e2) \<longleftrightarrow> now1 \<noteq> now2)"
proof -
  let ?x1 = "newEntry now1 t1 e1" and ?x2 = "newEntry now2 t2 e2"
  let ?h1 = "pushed ?x1 h"
  let ?h2 = "pushed ?x2 ?h1"
  let ?item1 = "Some (JSON_stringify (historyJson ?h1))"
  let ?item2 = "Some (JSON_stringify (historyJson ?h2))"
  have first: "saveHistory now1 t1 e1 item = Inr ?item1"
    using assms(2,4) by (auto simp: saveHistory_loaded [OF assms(1)])
  have l1: "getHistory ?item1 = Inr (historyJson ?h1)" by (rule getHistory_stored)
  have "?h1 \<noteq> [] \<and> svg (hd ?h1) = trim (svgInput e1)"
    using pushed_head [of ?x1 h] by (simp add: newEntry_def)
  with assms(3,5) have second: "saveHistory now2 t2 e2 ?item1 = Inr ?item2"
    by (auto simp: saveHistory_loaded [OF l1])
  have l2: "getHistory ?item2 = Inr (historyJson ?h2)" by (rule getHistory_stored)
  obtain rest where "?h2 = ?x2 # ?x1 # rest" using pushed_twice by blast
  with first second l2 show ?thesis by (auto simp: newEntry_def)
qed

theorem entry_id_is_clock_witness:
  "getHistory None = Inr (historyJson []) \<and>
   trim (svgInput (blank\<lparr>svgInput := js ''a''\<rparr>)) \<noteq> [] \<and>
   trim (svgInput (blank\<lparr>svgInput := js ''b''\<rparr>)) \<noteq> [] \<and>
   trim (svgInput (blank\<lparr>svgInput := js ''b''\<rparr>)) \<noteq> trim (svgInput (blank\<lparr>svgInput := js ''a''\<rparr>)) \<and>
   (\<exists>item1 item2 rest.
      saveHistory 1000 (js ''now'') (blank\<lparr>svgInput := js ''a''\<rparr>) None = Inr item1 \<and>
      saveHistory 1001 (js ''now'') (blank\<lparr>svgInput := js ''b''\<rparr>) item1 = Inr item2 \<and>
      getHistory item2 =
        Inr (historyJson (newEntry 1001 (js ''now'') (blank\<lparr>svgInput := js ''b''\<rparr>) #
                          newEntry 1000 (js ''now'') (blank\<lparr>svgInput := js ''a''\<rparr>) # rest)) \<and>
      id' (newEntry 1000 (js ''now'') (blank\<lparr>svgInput := js ''a''\<rparr>)) = 1000 \<and>
      id' (newEntry 1001 (js ''now'') (blank\<lparr>svgInput := js ''b''\<rparr>)) = 1001)"
proof -
  let ?a = "blank\<lparr>svgInput := js ''a''\<rparr>" and ?b = "blank\<lparr>svgInput := js ''b''\<rparr>"
  have 1: "trim (svgInput ?a) \<noteq> []" and 2: "trim (svgInput ?b) \<noteq> []"
    and 3: "trim (svgInput ?b) \<noteq> trim (svgInput ?a)"
    by (simp_all add: trim_def js_def isWhiteSpace_def)
  have 4: "([] :: HistoryItem list) = [] \<or> svg (hd []) \<noteq> trim (svgInput ?a)" by simp
  from entry_id_is_clock [OF getHistory_None 1 2 4 3, of 1000 "js ''now''" 1001 "js ''now''"]
    getHistory_None 1 2 3
  show ?thesis by auto
qed

text \<open>
  C9 as stated fails: two calls within the same millisecond record two entries with the
  same id.
\<close>

theorem same_clock_same_id:
  "saveAll [(1000, js ''now'', blank\<lparr>svgInput := js ''a''\<rparr>),
            (1000, js ''now'', blank\<lparr>svgInput := js ''b''\<rparr>)] None =
     Inr (Some (JSON_stringify (historyJson
       [\<lparr>id' = 1000, svg = js ''b'', code = [], date = js ''now''\<rparr>,
        \<lparr>id' = 1000, svg = js ''a'', code = [], date = js ''now''\<rparr>]))) \<and>
   getHistory (Some (JSON_stringify (historyJson
       [\<lparr>id' = 1000, svg = js ''b'', code = [], date = js ''now''\<rparr>,
        \<lparr>id' = 1000, svg = js ''a'', code = [], date = js ''now''\<rparr>]))) =
     Inr (historyJson
       [\<lparr>id' = 1000, svg = js ''b'', code = [], date = js ''now''\<rparr>,
        \<lparr>id' = 1000, svg = js ''a'', code = [], date = js ''now''\<rparr>]) \<and>
   id' \<lparr>id' = 1000, svg = js ''b'', code = [], date = js ''now''\<rparr> =
   id' \<lparr>id' = 1000, svg = js ''a'', code = [], date = js ''now''\<rparr> \<and>
   \<lparr>id' = 1000, svg = js ''b'', code = [], date = js ''now''\<rparr> \<noteq>
   \<lparr>id' = 1000, svg = js ''a'', code = [], date = js ''now''\<rparr>"
proof -
  let ?a = "blank\<lparr>svgInput := js ''a''\<rparr>" and ?b = "blank\<lparr>svgInput := js ''b''\<rparr>"
  let ?x1 = "\<lparr>id' = 1000, svg = js ''a'', code = [], date = js ''now''\<rparr>"
  let ?x2 = "\<lparr>id' = 1000, svg = js ''b'', code = [], date = js ''now''\<rparr>"
  have n1: "newEntry 1000 (js ''now'') ?a = ?x1" and n2: "newEntry 1000 (js ''now'') ?b = ?x2"
    by (simp_all add: newEntry_def blank_def trim_def js_def isWhiteSpace_def)
  have t: "trim (svgInput ?a) = js ''a''" "trim (svgInput ?b) = js ''b''"
    by (simp_all add: trim_def js_def isWhiteSpace_def)
  have first: "saveHistory 1000 (js ''now'') ?a None = Inr (Some (JSON_stringify (historyJson [?x1])))"
    unfolding saveHistory_loaded [OF getHistory_None] n1 t
    by (simp add: pushed_def) (simp add: js_def)
  have second: "saveHistory 1000 (js ''now'') ?b (Some (JSON_stringify (historyJson [?x1]))) =
      Inr (Some (JSON_stringify (historyJson [?x2, ?x1])))"
    unfolding saveHistory_loaded [OF getHistory_stored] n2 t
    by (simp add: pushed_def) (simp add: js_def)
  have "?x2 \<noteq> ?x1" by (simp add: js_def)
  with first second getHistory_stored [of "[?x2, ?x1]"] show ?thesis by simp
qed


end
